theory Spec2Isabelle
  imports Complex_Main "HOL-Library.Word" "HOL-Library.Log_Nat"
begin

unbundle bit_operations_syntax

section \<open>Bucketized buffer allocator (BucketizedBufferAllocator.h)\<close>

text \<open>
  Only the class declaration is part of the sources; the member functions are defined in
  a translation unit that is not. The types, the constant \<open>c_minResourceSizeExponent\<close>, the
  initial values of the members and the container types are taken from the header, the
  bodies from the specification. \<open>uint64_t\<close> and \<open>size_t\<close> are 64-bit words, \<open>uint32_t\<close> is a
  32-bit word.
\<close>

datatype alloc_error = OutOfDeviceMemory | AllocationIdsExhausted | InvalidArgument

datatype AllocatorRoundingMode = Disabled | Enabled

definition c_minResourceSizeExponent :: "32 word" where
  "c_minResourceSizeExponent = 16"

text \<open>
  Modelled from the spec: the body of \<open>GetBucketIndexFromSize\<close> is missing. Section 4.1:
  \<open>bucketIndex(size) = max(0, \<lceil>log2(size)\<rceil> - 16)\<close> for \<open>size > 0\<close>. The header gives the
  types: the size is a \<open>uint64_t\<close>, the result a \<open>gsl::index\<close>, a signed integer of 64 bits.
  The logarithm of a 64-bit size is at most 64, so the index lies between 0 and 48 and the
  signed arithmetic never wraps: the index is an \<open>int\<close>.
\<close>
definition GetBucketIndexFromSize :: "64 word \<Rightarrow> int" where
  "GetBucketIndexFromSize sz =
     max 0 (int (ceillog2 (unat sz)) - uint c_minResourceSizeExponent)"

text \<open>
  Modelled from the spec: the body of \<open>GetBucketSizeFromIndex\<close> is missing. Section 4.1:
  \<open>bucketSize(index) = 1 << (16 + index)\<close>. The header declares the result a \<open>uint64_t\<close>:
  the shift is a shift of a 64-bit word, which has no bit left from index 48 on (where C++
  leaves the shift undefined).
\<close>
definition GetBucketSizeFromIndex :: "int \<Rightarrow> 64 word" where
  "GetBucketSizeFromIndex index = push_bit (nat (uint c_minResourceSizeExponent + index)) 1"

text \<open>
  Modelled from the spec: the body of \<open>ComputeRequiredSize\<close> is missing. Section 4.1 rounds
  the size up to the size of its bucket. The header declares
  \<open>uint64_t ComputeRequiredSize(size_t size)\<close>.
\<close>
definition ComputeRequiredSize :: "64 word \<Rightarrow> 64 word" where
  "ComputeRequiredSize sz = GetBucketSizeFromIndex (GetBucketIndexFromSize sz)"

record Resource =
  resourceId :: "64 word"
  resourceBytes :: "64 word"

record AllocationInfo =
  info_bucket :: "int option"
  info_resource :: Resource
  info_requestedSize :: "64 word"

record BucketizedBufferAllocator =
  m_pool :: "Resource list list"
  m_currentResourceId :: "64 word"
  m_defaultRoundingMode :: AllocatorRoundingMode
  current_allocation_id :: "32 word"
  free_allocation_ids :: "32 word list"
  allocations_by_id :: "(32 word \<times> AllocationInfo) list"

text \<open>
  The state the constructor leaves: the member initialisers of the header. The members
  \<open>current_allocation_id_\<close>, \<open>free_allocation_ids_\<close> and \<open>allocations_by_id_\<close> lose their
  trailing underscore, which an Isabelle name cannot end with.
\<close>
definition fresh_allocator :: BucketizedBufferAllocator where
  "fresh_allocator =
     \<lparr> m_pool = [], m_currentResourceId = 0, m_defaultRoundingMode = Enabled,
       current_allocation_id = 0, free_allocation_ids = [], allocations_by_id = [] \<rparr>"

text \<open>
  Which of the pooled IDs a reservation takes is said neither by the specification
  (``popping'') nor by the header: it is a parameter of the model, a function that gives,
  for the pool as it stands, the position of the ID to take (reduced to the length of the
  pool).
\<close>
type_synonym pop_policy = "32 word list \<Rightarrow> nat"

text \<open>
  Modelled from the spec: the body of \<open>TryReserveAllocationID\<close> is missing. Section 4.1:
  prefer popping from \<open>free_allocation_ids\<close>; otherwise increment \<open>current_allocation_id\<close>.
  The other pooled IDs stay in their order. The header's comment gives the failure:
  \<open>nullopt\<close> if no more IDs are available, which for the 32-bit counter is the point where
  incrementing would wrap.
\<close>
definition TryReserveAllocationID ::
  "pop_policy \<Rightarrow> BucketizedBufferAllocator \<Rightarrow> 32 word option \<times> BucketizedBufferAllocator"
  where
  "TryReserveAllocationID pick a =
     (if free_allocation_ids a \<noteq> [] then
        let pos = pick (free_allocation_ids a) mod length (free_allocation_ids a)
        in (Some (free_allocation_ids a ! pos),
            a\<lparr>free_allocation_ids :=
                take pos (free_allocation_ids a) @ drop (Suc pos) (free_allocation_ids a)\<rparr>)
      else if current_allocation_id a = - 1 then (None, a)
      else (Some (current_allocation_id a + 1),
            a\<lparr>current_allocation_id := current_allocation_id a + 1\<rparr>))"

text \<open>
  Modelled from the spec: the body of \<open>ReleaseAllocationID\<close> is missing. Section 4.1:
  release returns the ID to \<open>free_allocation_ids\<close> without reordering.
\<close>
definition ReleaseAllocationID ::
  "32 word \<Rightarrow> BucketizedBufferAllocator \<Rightarrow> BucketizedBufferAllocator" where
  "ReleaseAllocationID ident a = a\<lparr>free_allocation_ids := free_allocation_ids a @ [ident]\<rparr>"

definition grow_pool :: "nat \<Rightarrow> Resource list list \<Rightarrow> Resource list list" where
  "grow_pool index pool = pool @ replicate (Suc index - length pool) []"

text \<open>
  Modelled from the spec: the body of \<open>Alloc\<close> is missing. Section 4.1: select the bucket,
  pop an idle resource of the bucket (the free list of a bucket is LIFO, section 8) or
  create a new backing of the bucket's size, reserve an allocation ID, store the
  \<open>AllocationInfo\<close>, return the opaque pointer (here: the ID it encodes). With rounding
  disabled an exact-sized dedicated resource bypasses the buckets. A failure leaves the
  state as it was before the call (section 7). The flag \<open>deviceOk\<close> is the device's answer
  to a request for a new backing.
\<close>
definition Alloc ::
  "pop_policy \<Rightarrow> bool \<Rightarrow> 64 word \<Rightarrow> BucketizedBufferAllocator \<Rightarrow>
   (alloc_error + 32 word) \<times> BucketizedBufferAllocator"
  where
  "Alloc pick deviceOk size_in_bytes a =
     (let rounded = (m_defaultRoundingMode a = Enabled);
          index = nat (GetBucketIndexFromSize size_in_bytes);
          pool = (if rounded then grow_pool index (m_pool a) else m_pool a);
          reuse = (rounded \<and> pool ! index \<noteq> [])
      in if \<not> reuse \<and> \<not> deviceOk then (Inl OutOfDeviceMemory, a)
         else
           let res = (if reuse then last (pool ! index)
                      else \<lparr> resourceId = m_currentResourceId a + 1,
                             resourceBytes = (if rounded then ComputeRequiredSize size_in_bytes
                                              else size_in_bytes) \<rparr>);
               pool' = (if reuse then pool[index := butlast (pool ! index)] else pool);
               a1 = a\<lparr> m_pool := pool',
                       m_currentResourceId :=
                         (if reuse then m_currentResourceId a else m_currentResourceId a + 1) \<rparr>
           in case TryReserveAllocationID pick a1 of
                (None, _) \<Rightarrow> (Inl AllocationIdsExhausted, a)
              | (Some ident, a2) \<Rightarrow>
                  (Inr ident,
                   a2\<lparr> allocations_by_id :=
                         allocations_by_id a2 @
                           [(ident, \<lparr> info_bucket =
                                        (if rounded then Some (GetBucketIndexFromSize size_in_bytes)
                                         else None),
                                      info_resource = res,
                                      info_requestedSize = size_in_bytes \<rparr>)] \<rparr>))"

text \<open>
  Modelled from the spec: the body of \<open>Free\<close> is missing. Section 4.1: look the allocation
  up, return its resource to the matching bucket's free list, release the allocation ID and
  erase the mapping. Freeing an unknown pointer is a programmer error.
\<close>
definition Free ::
  "32 word \<Rightarrow> BucketizedBufferAllocator \<Rightarrow> (alloc_error + unit) \<times> BucketizedBufferAllocator"
  where
  "Free ptr a =
     (case map_of (allocations_by_id a) ptr of
        None \<Rightarrow> (Inl InvalidArgument, a)
      | Some info \<Rightarrow>
          let pool' = (case info_bucket info of
                         None \<Rightarrow> m_pool a
                       | Some index \<Rightarrow>
                           (grow_pool (nat index) (m_pool a))
                             [nat index :=
                                grow_pool (nat index) (m_pool a) ! nat index @ [info_resource info]]);
              a1 = ReleaseAllocationID ptr (a\<lparr>m_pool := pool'\<rparr>)
          in (Inr (), a1\<lparr>allocations_by_id :=
                           filter (\<lambda>kv. fst kv \<noteq> ptr) (allocations_by_id a1)\<rparr>))"

definition GetAllocationInfo :: "32 word \<Rightarrow> BucketizedBufferAllocator \<Rightarrow> AllocationInfo option"
  where
  "GetAllocationInfo ptr a = map_of (allocations_by_id a) ptr"

datatype bucket_call = AllocCall bool "64 word" | FreeCall "32 word"

fun bucket_step ::
  "pop_policy \<Rightarrow> bucket_call \<Rightarrow> BucketizedBufferAllocator \<Rightarrow> BucketizedBufferAllocator"
  where
  "bucket_step pick (AllocCall deviceOk n) a = snd (Alloc pick deviceOk n a)"
| "bucket_step pick (FreeCall p) a = snd (Free p a)"

definition bucket_run :: "pop_policy \<Rightarrow> bucket_call list \<Rightarrow> BucketizedBufferAllocator" where
  "bucket_run pick calls = fold (bucket_step pick) calls fresh_allocator"

definition live_ids :: "BucketizedBufferAllocator \<Rightarrow> 32 word list" where
  "live_ids a = map fst (allocations_by_id a)"

section \<open>Pooled upload heap (PooledUploadHeap.cpp)\<close>

text \<open>
  \<open>size_t\<close> and \<open>uint64_t\<close> are 64-bit words: additions wrap, as the overflow test of
  \<open>FindOffsetForAllocation\<close> expects. Handles of device objects (resources, command
  allocators, command lists) are natural numbers handed out by the device in increasing
  order.
\<close>

type_synonym size_t = "64 word"

datatype upload_error = DeviceFailure | ExecutionFailure | UndefinedBehaviour

text \<open>
  Modelled from the spec: \<open>GpuEvent\<close> is declared outside the sources. The glossary calls a
  completion event a token for all GPU work submitted before a point, monotonic per queue:
  it is the number of pieces of work enqueued up to that point, and it has fired once the
  GPU has completed that many.
\<close>
type_synonym GpuEvent = nat

text \<open>
  The structs below are declared in \<open>PooledUploadHeap.h\<close>, which is not part of the sources;
  their fields are the ones \<open>PooledUploadHeap.cpp\<close> reads and writes, in the order of its
  aggregate initialisers. \<open>Allocation\<close> and \<open>ReusableCopyCommandListState\<close> live in
  \<open>std::list\<close>s and are referred to by pointer and by iterator: the extra field \<open>node\<close>
  (\<open>entryNode\<close>) is the address of the list node, which is what such a pointer holds.
\<close>

record Allocation =
  sizeInBytes :: size_t
  offsetInChunk :: size_t
  doneEvent :: GpuEvent
  locked :: bool
  node :: nat

record D3D12Resource =
  handle :: nat
  Width :: "64 word"

record Chunk =
  capacityInBytes :: size_t
  resource :: "D3D12Resource option"
  allocations :: "Allocation list"

record ReusableCopyKey =
  dstResource :: nat
  dstOffset :: "64 word"
  srcSizeInBytes :: "64 word"

record ReusableCopyCommandListState =
  commandAllocator :: nat
  commandList :: nat
  allocation :: nat
  chunkResource :: "D3D12Resource option"
  entryNode :: nat

text \<open>
  The constants \<open>c_minChunkSize\<close>, \<open>c_allocationAlignment\<close> and \<open>maxReusableCommandLists\<close>
  are declared in the missing header: they are parameters of the model.
\<close>
record Constants =
  c_minChunkSize :: size_t
  c_allocationAlignment :: size_t
  maxReusableCommandLists :: nat

text \<open>
  Modelled from the spec: \<open>ExecutionContext\<close> is declared outside the sources. Section 6
  gives its interface: \<open>CopyBufferRegion\<close> issues a copy, \<open>ExecuteCommandList\<close> submits a
  recorded list, \<open>GetCurrentCompletionEvent\<close> is the event that fires once everything
  enqueued so far has retired, \<open>QueueReference\<close> keeps an object alive until then.
\<close>
record ExecutionContext =
  enqueued :: nat
  copiedRegions :: "(nat \<times> 64 word \<times> nat \<times> D3D12Resource option \<times> size_t \<times> size_t) list"
  executedCommandLists :: "nat list"
  queuedReferences :: "nat list"

definition CopyBufferRegion ::
  "nat \<Rightarrow> 64 word \<Rightarrow> nat \<Rightarrow> D3D12Resource option \<Rightarrow> size_t \<Rightarrow> size_t \<Rightarrow>
   ExecutionContext \<Rightarrow> ExecutionContext" where
  "CopyBufferRegion dst dstOff dstState src srcOff byteCount ctx =
     ctx\<lparr> enqueued := Suc (enqueued ctx),
          copiedRegions := copiedRegions ctx @ [(dst, dstOff, dstState, src, srcOff, byteCount)] \<rparr>"

definition ExecuteCommandList :: "nat \<Rightarrow> ExecutionContext \<Rightarrow> ExecutionContext" where
  "ExecuteCommandList cl ctx =
     ctx\<lparr> enqueued := Suc (enqueued ctx),
          executedCommandLists := executedCommandLists ctx @ [cl] \<rparr>"

definition GetCurrentCompletionEvent :: "ExecutionContext \<Rightarrow> GpuEvent" where
  "GetCurrentCompletionEvent ctx = enqueued ctx"

definition QueueReference :: "nat \<Rightarrow> ExecutionContext \<Rightarrow> ExecutionContext" where
  "QueueReference obj ctx = ctx\<lparr>queuedReferences := queuedReferences ctx @ [obj]\<rparr>"

text \<open>
  What the world outside the heap answers during one public call: how far the GPU has got
  (which decides \<open>IsSignaled\<close>), and whether each call into the device or the executor that
  can fail succeeds. \<open>ORT_THROW_IF_FAILED\<close> turns a refusal into an exception.
\<close>
record Environment =
  completedValue :: nat
  createResourceOk :: bool
  createCommandAllocatorOk :: bool
  createCommandListOk :: bool
  mapOk :: bool
  copyOk :: bool
  executeOk :: bool

definition IsSignaled :: "Environment \<Rightarrow> GpuEvent \<Rightarrow> bool" where
  "IsSignaled env ev \<longleftrightarrow> ev \<le> completedValue env"

record PooledUploadHeap =
  m_chunks :: "Chunk list"
  m_totalCapacity :: size_t
  m_reusableCommandLists :: "ReusableCopyCommandListState list"
  m_reusableCommandListsCache :: "(ReusableCopyKey \<times> nat) list"
  m_executionContext :: ExecutionContext
  stagingWrites :: "(D3D12Resource option \<times> size_t \<times> size_t) list"
  nextHandle :: nat
  nextNode :: nat

text \<open>
  The heap after its constructor: no chunk, no cached command list. \<open>stagingWrites\<close> logs
  the \<open>memcpy\<close>s into mapped chunks (resource, offset, byte count); \<open>nextHandle\<close> and
  \<open>nextNode\<close> are the next handle of the device and the next list-node address.
\<close>
definition new_heap :: PooledUploadHeap where
  "new_heap =
     \<lparr> m_chunks = [], m_totalCapacity = 0, m_reusableCommandLists = [],
       m_reusableCommandListsCache = [],
       m_executionContext =
         \<lparr> enqueued = 0, copiedRegions = [], executedCommandLists = [], queuedReferences = [] \<rparr>,
       stagingWrites = [], nextHandle = 1, nextNode = 1 \<rparr>"

definition Align :: "size_t \<Rightarrow> size_t \<Rightarrow> size_t" where
  "Align offset alignment = (offset + alignment - 1) AND NOT (alignment - 1)"

definition FindOffsetForAllocation :: "Constants \<Rightarrow> Chunk \<Rightarrow> size_t \<Rightarrow> size_t option" where
  "FindOffsetForAllocation K chunk sz =
     (if capacityInBytes chunk < sz then None
      else if allocations chunk = [] then Some 0
      else
        let lastAllocation = last (allocations chunk);
            newAllocationBegin =
              Align (offsetInChunk lastAllocation + sizeInBytes lastAllocation)
                (c_allocationAlignment K)
        in if newAllocationBegin + sz < newAllocationBegin then None
           else
             let firstAllocation = hd (allocations chunk)
             in if offsetInChunk firstAllocation \<le> offsetInChunk lastAllocation then
                  (if newAllocationBegin + sz \<le> capacityInBytes chunk then Some newAllocationBegin
                   else if 0 + sz \<le> offsetInChunk firstAllocation then Some 0
                   else None)
                else
                  (if newAllocationBegin + sz \<le> offsetInChunk firstAllocation
                   then Some newAllocationBegin
                   else None))"

definition CreateChunk :: "Environment \<Rightarrow> nat \<Rightarrow> size_t \<Rightarrow> upload_error + Chunk" where
  "CreateChunk env h sz =
     (if createResourceOk env
      then Inr \<lparr> capacityInBytes = sz, resource = Some \<lparr> handle = h, Width = sz \<rparr>,
                 allocations = [] \<rparr>
      else Inl DeviceFailure)"

text \<open>The loop of \<open>Reserve\<close> over \<open>m_chunks\<close>; a chunk pointer is the chunk's index.\<close>
fun Reserve_loop :: "Constants \<Rightarrow> Chunk list \<Rightarrow> nat \<Rightarrow> size_t \<Rightarrow> (nat \<times> size_t) option" where
  "Reserve_loop K [] i sz = None"
| "Reserve_loop K (chunk # rest) i sz =
     (case FindOffsetForAllocation K chunk sz of
        Some offsetForAllocation \<Rightarrow> Some (i, offsetForAllocation)
      | None \<Rightarrow> Reserve_loop K rest (Suc i) sz)"

definition Reserve ::
  "Constants \<Rightarrow> Environment \<Rightarrow> size_t \<Rightarrow> PooledUploadHeap \<Rightarrow>
   (upload_error + nat \<times> size_t) \<times> PooledUploadHeap" where
  "Reserve K env sz h =
     (case Reserve_loop K (m_chunks h) 0 sz of
        Some found \<Rightarrow> (Inr found, h)
      | None \<Rightarrow>
          let newChunkSize = max (max (m_totalCapacity h) (c_minChunkSize K)) sz
          in case CreateChunk env (nextHandle h) newChunkSize of
               Inl e \<Rightarrow> (Inl e, h)
             | Inr chunk \<Rightarrow>
                 (Inr (length (m_chunks h), 0),
                  h\<lparr> m_chunks := m_chunks h @ [chunk],
                     m_totalCapacity := m_totalCapacity h + newChunkSize,
                     nextHandle := Suc (nextHandle h) \<rparr>))"

definition reclaimable :: "Environment \<Rightarrow> Allocation \<Rightarrow> bool" where
  "reclaimable env a \<longleftrightarrow> \<not> locked a \<and> IsSignaled env (doneEvent a)"

definition ReclaimAllocations :: "Environment \<Rightarrow> PooledUploadHeap \<Rightarrow> PooledUploadHeap" where
  "ReclaimAllocations env h =
     h\<lparr>m_chunks :=
         map (\<lambda>chunk. chunk\<lparr>allocations := filter (\<lambda>a. \<not> reclaimable env a) (allocations chunk)\<rparr>)
           (m_chunks h)\<rparr>"

text \<open>\<open>chunk->allocations.push_back(a)\<close> for the chunk with index \<open>i\<close>.\<close>
definition push_allocation :: "nat \<Rightarrow> Allocation \<Rightarrow> Chunk list \<Rightarrow> Chunk list" where
  "push_allocation i a chunks =
     chunks[i := (chunks ! i)\<lparr>allocations := allocations (chunks ! i) @ [a]\<rparr>]"

text \<open>Reading and writing through an \<open>Allocation*\<close>: the allocation whose node it is.\<close>
definition find_allocation :: "nat \<Rightarrow> Chunk list \<Rightarrow> Allocation option" where
  "find_allocation p chunks = find (\<lambda>a. node a = p) (concat (map allocations chunks))"

definition update_allocation ::
  "nat \<Rightarrow> (Allocation \<Rightarrow> Allocation) \<Rightarrow> Chunk list \<Rightarrow> Chunk list" where
  "update_allocation p f chunks =
     map (\<lambda>chunk. chunk\<lparr>allocations :=
                         map (\<lambda>a. if node a = p then f a else a) (allocations chunk)\<rparr>) chunks"

definition BeginUploadToGpu ::
  "Constants \<Rightarrow> Environment \<Rightarrow> nat \<Rightarrow> 64 word \<Rightarrow> nat \<Rightarrow> size_t \<Rightarrow> PooledUploadHeap \<Rightarrow>
   (upload_error + GpuEvent) \<times> PooledUploadHeap" where
  "BeginUploadToGpu K env dst dstOff dstState srcSize h =
     (case Reserve K env srcSize (ReclaimAllocations env h) of
        (Inl e, h1) \<Rightarrow> (Inl e, h1)
      | (Inr (chunk, offs), h1) \<Rightarrow>
          if \<not> mapOk env then (Inl DeviceFailure, h1)
          else
            let res = resource (m_chunks h1 ! chunk);
                h2 = h1\<lparr>stagingWrites := stagingWrites h1 @ [(res, offs, srcSize)]\<rparr>
            in if \<not> copyOk env then (Inl ExecutionFailure, h2)
               else
                 let ctx = CopyBufferRegion dst dstOff dstState res offs srcSize
                             (m_executionContext h2);
                     doneEv = GetCurrentCompletionEvent ctx
                 in (Inr doneEv,
                     h2\<lparr> m_executionContext := ctx,
                         m_chunks :=
                           push_allocation chunk
                             \<lparr> sizeInBytes = srcSize, offsetInChunk = offs,
                               doneEvent = doneEv, locked = False, node = nextNode h2 \<rparr>
                             (m_chunks h2),
                         nextNode := Suc (nextNode h2) \<rparr>))"

text \<open>
  Lines 214 to 218: the eviction of the front of \<open>m_reusableCommandLists\<close>. Calling
  \<open>front()\<close> on an empty list, or writing through a pointer to an allocation that is gone,
  is undefined behaviour.
\<close>
definition evict_front :: "ReusableCopyKey \<Rightarrow> PooledUploadHeap \<Rightarrow> upload_error + PooledUploadHeap"
  where
  "evict_front key h =
     (case m_reusableCommandLists h of
        [] \<Rightarrow> Inl UndefinedBehaviour
      | front # rest \<Rightarrow>
          (case find_allocation (allocation front) (m_chunks h) of
             None \<Rightarrow> Inl UndefinedBehaviour
           | Some _ \<Rightarrow>
               Inr (h\<lparr> m_executionContext :=
                          QueueReference (commandAllocator front)
                            (QueueReference (commandList front) (m_executionContext h)),
                        m_chunks :=
                          update_allocation (allocation front) (\<lambda>a. a\<lparr>locked := False\<rparr>)
                            (m_chunks h),
                        m_reusableCommandLists := rest,
                        m_reusableCommandListsCache :=
                          filter (\<lambda>kv. fst kv \<noteq> key) (m_reusableCommandListsCache h) \<rparr>)))"

text \<open>
  Lines 225 to 292: the branch of a cache miss. The commands recorded into the new command
  list (barrier, copy, barrier) stay inside the list and are not part of the heap's state.
\<close>
definition reusable_miss ::
  "Constants \<Rightarrow> Environment \<Rightarrow> ReusableCopyKey \<Rightarrow> size_t \<Rightarrow> PooledUploadHeap \<Rightarrow>
   (upload_error + GpuEvent) \<times> PooledUploadHeap" where
  "reusable_miss K env key srcSize h =
     (case Reserve K env srcSize h of
        (Inl e, h1) \<Rightarrow> (Inl e, h1)
      | (Inr (chunk, offs), h1) \<Rightarrow>
          if \<not> createCommandAllocatorOk env then (Inl DeviceFailure, h1)
          else if \<not> createCommandListOk env
          then (Inl DeviceFailure, h1\<lparr>nextHandle := Suc (nextHandle h1)\<rparr>)
          else
            let allocator = nextHandle h1;
                cmdList = Suc (nextHandle h1);
                h2 = h1\<lparr>nextHandle := Suc (Suc (nextHandle h1))\<rparr>
            in if \<not> mapOk env then (Inl DeviceFailure, h2)
               else
                 let res = resource (m_chunks h2 ! chunk);
                     doneEv = GetCurrentCompletionEvent (m_executionContext h2);
                     h3 = h2\<lparr> stagingWrites := stagingWrites h2 @ [(res, offs, srcSize)],
                              m_chunks :=
                                push_allocation chunk
                                  \<lparr> sizeInBytes = srcSize, offsetInChunk = offs,
                                    doneEvent = doneEv, locked = True, node = nextNode h2 \<rparr>
                                  (m_chunks h2),
                              nextNode := Suc (nextNode h2) \<rparr>
                 in if \<not> executeOk env then (Inl ExecutionFailure, h3)
                    else
                      let ctx = ExecuteCommandList cmdList (m_executionContext h3);
                          commandListState =
                            \<lparr> commandAllocator = allocator, commandList = cmdList,
                              allocation = nextNode h2, chunkResource = res,
                              entryNode = nextNode h3 \<rparr>
                      in (Inr (GetCurrentCompletionEvent ctx),
                          h3\<lparr> m_executionContext := ctx,
                              m_reusableCommandLists :=
                                m_reusableCommandLists h3 @ [commandListState],
                              m_reusableCommandListsCache :=
                                (if map_of (m_reusableCommandListsCache h3) key = None
                                 then m_reusableCommandListsCache h3 @ [(key, nextNode h3)]
                                 else m_reusableCommandListsCache h3),
                              nextNode := Suc (nextNode h3) \<rparr>))"

text \<open>
  Lines 296 to 310: the branch of a cache hit. The cache holds an iterator into
  \<open>m_reusableCommandLists\<close>; dereferencing it after its node has been popped, or the
  allocation pointer of the entry after the allocation is gone, is undefined behaviour.
\<close>
definition reusable_hit ::
  "Environment \<Rightarrow> nat \<Rightarrow> size_t \<Rightarrow> PooledUploadHeap \<Rightarrow>
   (upload_error + GpuEvent) \<times> PooledUploadHeap" where
  "reusable_hit env iter srcSize h =
     (case find (\<lambda>e. entryNode e = iter) (m_reusableCommandLists h) of
        None \<Rightarrow> (Inl UndefinedBehaviour, h)
      | Some entry \<Rightarrow>
          (case find_allocation (allocation entry) (m_chunks h) of
             None \<Rightarrow> (Inl UndefinedBehaviour, h)
           | Some a \<Rightarrow>
               if \<not> mapOk env then (Inl DeviceFailure, h)
               else
                 let h1 = h\<lparr>stagingWrites :=
                              stagingWrites h @ [(chunkResource entry, offsetInChunk a, srcSize)]\<rparr>
                 in if \<not> executeOk env then (Inl ExecutionFailure, h1)
                    else
                      let ctx = ExecuteCommandList (commandList entry) (m_executionContext h1);
                          doneEv = GetCurrentCompletionEvent ctx
                      in (Inr doneEv,
                          h1\<lparr> m_executionContext := ctx,
                              m_chunks :=
                                update_allocation (allocation entry) (\<lambda>a. a\<lparr>doneEvent := doneEv\<rparr>)
                                  (m_chunks h1) \<rparr>)))"

definition BeginReusableUploadToGpu ::
  "Constants \<Rightarrow> Environment \<Rightarrow> nat \<Rightarrow> 64 word \<Rightarrow> nat \<Rightarrow> size_t \<Rightarrow> PooledUploadHeap \<Rightarrow>
   (upload_error + GpuEvent) \<times> PooledUploadHeap" where
  "BeginReusableUploadToGpu K env dst dstOff dstState srcSize h =
     (let key = \<lparr> dstResource = dst, dstOffset = dstOff, srcSizeInBytes = srcSize \<rparr>;
          cacheIter = map_of (m_reusableCommandListsCache h) key
      in case (if cacheIter = None \<and>
                  length (m_reusableCommandLists h) = maxReusableCommandLists K
               then evict_front key h else Inr h) of
           Inl e \<Rightarrow> (Inl e, h)
         | Inr h1 \<Rightarrow>
             (case cacheIter of
                None \<Rightarrow> reusable_miss K env key srcSize (ReclaimAllocations env h1)
              | Some iter \<Rightarrow> reusable_hit env iter srcSize (ReclaimAllocations env h1)))"

definition Trim :: "Environment \<Rightarrow> PooledUploadHeap \<Rightarrow> PooledUploadHeap" where
  "Trim env h =
     (let h1 = ReclaimAllocations env h;
          kept = filter (\<lambda>c. allocations c \<noteq> []) (m_chunks h1)
      in h1\<lparr> m_chunks := kept,
             m_totalCapacity := fold (\<lambda>chunk total. total + capacityInBytes chunk) kept 0 \<rparr>)"

text \<open>
  \<open>AssertInvariants\<close>: true when every assertion of the debug build passes.
  \<open>std::is_sorted\<close> and the loop over the sorted allocations compare neighbours;
  \<open>std::sort\<close> is modelled by a stable sort on the offset.
\<close>
fun is_sorted :: "('a \<Rightarrow> 'a \<Rightarrow> bool) \<Rightarrow> 'a list \<Rightarrow> bool" where
  "is_sorted cmp (x # y # rest) = (\<not> cmp y x \<and> is_sorted cmp (y # rest))"
| "is_sorted cmp _ = True"

fun no_overlap_sorted :: "Allocation list \<Rightarrow> bool" where
  "no_overlap_sorted (alloc # nextAlloc # rest) =
     (offsetInChunk alloc + sizeInBytes alloc \<le> offsetInChunk nextAlloc \<and>
      no_overlap_sorted (nextAlloc # rest))"
| "no_overlap_sorted _ = True"

definition AssertInvariants :: "Constants \<Rightarrow> PooledUploadHeap \<Rightarrow> bool" where
  "AssertInvariants K h \<longleftrightarrow>
     is_sorted (\<lambda>lhs rhs. capacityInBytes lhs < capacityInBytes rhs) (m_chunks h) \<and>
     (\<forall>chunk \<in> set (m_chunks h).
        case resource chunk of None \<Rightarrow> False | Some r \<Rightarrow> capacityInBytes chunk = Width r) \<and>
     (\<forall>chunk \<in> set (m_chunks h). \<forall>alloc \<in> set (allocations chunk).
        offsetInChunk alloc + sizeInBytes alloc \<le> capacityInBytes chunk \<and>
        offsetInChunk alloc mod c_allocationAlignment K = 0) \<and>
     (\<forall>chunk \<in> set (m_chunks h).
        no_overlap_sorted (sort_key offsetInChunk (allocations chunk))) \<and>
     fold (\<lambda>chunk total. total + capacityInBytes chunk) (m_chunks h) 0 = m_totalCapacity h"

section \<open>The placement algorithm in the words of the specification\<close>

text \<open>
  Section 4.2, \<open>Placement algorithm\<close>: \<open>align\<close> rounds up to a multiple of the alignment;
  the candidate and the overflow guard are machine values. Steps 1 to 3 place a request in
  one chunk, step 4 creates a new chunk when no chunk accepts it.
\<close>
definition round_up :: "nat \<Rightarrow> nat \<Rightarrow> nat" where
  "round_up n a = ((n + a - 1) div a) * a"

definition spec_candidate :: "Constants \<Rightarrow> Chunk \<Rightarrow> size_t" where
  "spec_candidate K chunk =
     (let lst = last (allocations chunk)
      in word_of_nat (round_up (unat (offsetInChunk lst) + unat (sizeInBytes lst))
                        (unat (c_allocationAlignment K))))"

definition spec_place :: "Constants \<Rightarrow> Chunk \<Rightarrow> size_t \<Rightarrow> size_t option" where
  "spec_place K chunk sz =
     (let fst_alloc = hd (allocations chunk);
          lst_alloc = last (allocations chunk);
          candidate = spec_candidate K chunk
      in if capacityInBytes chunk < sz then None
         else if allocations chunk = [] then Some 0
         else if candidate + sz < candidate then None
         else if offsetInChunk fst_alloc \<le> offsetInChunk lst_alloc then
           (if candidate + sz \<le> capacityInBytes chunk then Some candidate
            else if sz \<le> offsetInChunk fst_alloc then Some 0
            else None)
         else
           (if candidate + sz \<le> offsetInChunk fst_alloc then Some candidate else None))"

definition spec_Reserve ::
  "Constants \<Rightarrow> Environment \<Rightarrow> size_t \<Rightarrow> PooledUploadHeap \<Rightarrow>
   (upload_error + nat \<times> size_t) \<times> PooledUploadHeap" where
  "spec_Reserve K env sz h =
     (case find (\<lambda>i. spec_place K (m_chunks h ! i) sz \<noteq> None) [0..<length (m_chunks h)] of
        Some i \<Rightarrow> (Inr (i, the (spec_place K (m_chunks h ! i) sz)), h)
      | None \<Rightarrow>
          if createResourceOk env then
            let newSize = Max {m_totalCapacity h, c_minChunkSize K, sz}
            in (Inr (length (m_chunks h), 0),
                h\<lparr> m_chunks :=
                     m_chunks h @
                       [\<lparr> capacityInBytes = newSize,
                          resource = Some \<lparr> handle = nextHandle h, Width = newSize \<rparr>,
                          allocations = [] \<rparr>],
                   m_totalCapacity := m_totalCapacity h + newSize,
                   nextHandle := Suc (nextHandle h) \<rparr>)
          else (Inl DeviceFailure, h))"

section \<open>Invariants used in the proofs\<close>

text \<open>
  The allocation IDs of the bucket allocator: the free pool and the live allocations hold
  pairwise different IDs, none of them 0 and none above the counter.
\<close>
definition id_inv :: "BucketizedBufferAllocator \<Rightarrow> bool" where
  "id_inv a \<longleftrightarrow>
     distinct (free_allocation_ids a @ live_ids a) \<and>
     (\<forall>x \<in> set (free_allocation_ids a @ live_ids a). x \<noteq> 0 \<and> x \<le> current_allocation_id a)"

text \<open>
  The upload heap, on natural numbers. The live allocations of a chunk form a ring: the
  list of allocations, rotated at some position, is a chain of byte ranges in which each
  range ends before the next one starts. Every allocation is non-empty, aligned and inside
  its chunk; the chunk capacities are ascending and add up to \<open>m_totalCapacity\<close>; the pool
  stays far enough below \<open>2^64\<close> bytes for rounding up to the alignment not to wrap.
\<close>
definition alloc_end :: "Allocation \<Rightarrow> nat" where
  "alloc_end a = unat (offsetInChunk a) + unat (sizeInBytes a)"

definition before :: "Allocation \<Rightarrow> Allocation \<Rightarrow> bool" where
  "before a b \<longleftrightarrow> alloc_end a \<le> unat (offsetInChunk b)"

definition ring_ordered :: "Allocation list \<Rightarrow> bool" where
  "ring_ordered xs \<longleftrightarrow>
     (\<exists>k \<in> set [0..<Suc (length xs)]. sorted_wrt before (drop k xs @ take k xs))"

definition chunk_inv :: "Constants \<Rightarrow> Chunk \<Rightarrow> bool" where
  "chunk_inv K c \<longleftrightarrow>
     (case resource c of None \<Rightarrow> False | Some r \<Rightarrow> Width r = capacityInBytes c) \<and>
     (\<forall>a \<in> set (allocations c).
        sizeInBytes a \<noteq> 0 \<and> alloc_end a \<le> unat (capacityInBytes c) \<and>
        offsetInChunk a mod c_allocationAlignment K = 0) \<and>
     ring_ordered (allocations c)"

definition pool_bytes :: "Chunk list \<Rightarrow> nat" where
  "pool_bytes cs = sum_list (map (\<lambda>c. unat (capacityInBytes c)) cs)"

definition pool_inv :: "Constants \<Rightarrow> Chunk list \<Rightarrow> size_t \<Rightarrow> bool" where
  "pool_inv K cs tot \<longleftrightarrow>
     pool_bytes cs + unat (c_allocationAlignment K) \<le> 2 ^ 64 \<and>
     unat tot = pool_bytes cs \<and>
     sorted (map capacityInBytes cs) \<and>
     (\<forall>c \<in> set cs. chunk_inv K c)"

definition pool_fits :: "Constants \<Rightarrow> PooledUploadHeap \<Rightarrow> bool" where
  "pool_fits K h \<longleftrightarrow> pool_bytes (m_chunks h) + unat (c_allocationAlignment K) \<le> 2 ^ 64"

definition heap_inv :: "Constants \<Rightarrow> PooledUploadHeap \<Rightarrow> bool" where
  "heap_inv K h \<longleftrightarrow> pool_inv K (m_chunks h) (m_totalCapacity h)"

text \<open>
  List nodes get increasing addresses, so every node in use lies below \<open>nextNode\<close>. The
  allocations that a heap \<open>h'\<close> has got since the heap \<open>h\<close> are those whose node \<open>h\<close> had not
  handed out yet.
\<close>
definition all_allocations :: "PooledUploadHeap \<Rightarrow> Allocation list" where
  "all_allocations h = concat (map allocations (m_chunks h))"

definition nodes_fresh :: "PooledUploadHeap \<Rightarrow> bool" where
  "nodes_fresh h \<longleftrightarrow>
     (\<forall>a \<in> set (all_allocations h). node a < nextNode h) \<and>
     (\<forall>e \<in> set (m_reusableCommandLists h). entryNode e < nextNode h)"

definition new_allocations :: "PooledUploadHeap \<Rightarrow> PooledUploadHeap \<Rightarrow> Allocation list" where
  "new_allocations h h' = filter (\<lambda>a. nextNode h \<le> node a) (all_allocations h')"

section \<open>Concrete constants, answers and states for the examples\<close>

text \<open>
  The constants of scenario 3 of the specification (alignment 16, chunks of at least 1024
  bytes) with room for two cached command lists, and the same with room for one.
\<close>
definition K16 :: Constants where
  "K16 = \<lparr> c_minChunkSize = 1024, c_allocationAlignment = 16, maxReusableCommandLists = 2 \<rparr>"

definition K16_one :: Constants where
  "K16_one = \<lparr> c_minChunkSize = 1024, c_allocationAlignment = 16, maxReusableCommandLists = 1 \<rparr>"

text \<open>Every call into the device and the executor succeeds; the GPU has completed \<open>n\<close>.\<close>
definition all_ok :: "nat \<Rightarrow> Environment" where
  "all_ok n =
     \<lparr> completedValue = n, createResourceOk = True, createCommandAllocatorOk = True,
       createCommandListOk = True, mapOk = True, copyOk = True, executeOk = True \<rparr>"

text \<open>As \<open>all_ok\<close>, but the executor fails to execute a command list.\<close>
definition execute_fails :: "nat \<Rightarrow> Environment" where
  "execute_fails n = (all_ok n)\<lparr>executeOk := False\<rparr>"

text \<open>
  Scenario 4 of the specification: one chunk of capacity 1024 whose live span wraps, the
  first allocation at offset 600 with 200 bytes, the last at offset 0 with 100 bytes.
\<close>
definition wrapped_heap :: PooledUploadHeap where
  "wrapped_heap =
     new_heap
       \<lparr> m_chunks :=
           [\<lparr> capacityInBytes = 1024, resource = Some \<lparr> handle = 1, Width = 1024 \<rparr>,
              allocations =
                [\<lparr> sizeInBytes = 200, offsetInChunk = 600, doneEvent = 1, locked = False,
                   node = 1 \<rparr>,
                 \<lparr> sizeInBytes = 100, offsetInChunk = 0, doneEvent = 2, locked = False,
                   node = 2 \<rparr>] \<rparr>],
         m_totalCapacity := 1024, nextHandle := 2, nextNode := 3 \<rparr>"

section \<open>The bucket allocator: sizes and allocation IDs\<close>

lemmas bucket_defs =
  bucket_run_def Alloc_def Free_def fresh_allocator_def TryReserveAllocationID_def
  ReleaseAllocationID_def grow_pool_def Let_def GetBucketIndexFromSize_def
  ComputeRequiredSize_def GetBucketSizeFromIndex_def c_minResourceSizeExponent_def
  GetAllocationInfo_def live_ids_def ceillog2_rec

lemma bucket_index_nat: "GetBucketIndexFromSize s = int (ceillog2 (unat s) - 16)"
  by (simp add: GetBucketIndexFromSize_def c_minResourceSizeExponent_def)

lemma required_size_push: "ComputeRequiredSize s = push_bit (16 + (ceillog2 (unat s) - 16)) 1"
  by (simp add: ComputeRequiredSize_def GetBucketSizeFromIndex_def bucket_index_nat
      c_minResourceSizeExponent_def nat_add_distrib)

lemma ceillog2_int:
  assumes "0 < s"
  shows "int (ceillog2 s) = \<lceil>log 2 (real s)\<rceil>"
proof -
  have "0 \<le> log 2 (real s)" using assms by simp
  then have "0 \<le> \<lceil>log 2 (real s)\<rceil>" by linarith
  then show ?thesis using assms by (simp add: ceillog2_def)
qed

lemma ceillog2_word_le:
  fixes s :: "64 word"
  shows "ceillog2 (unat s) \<le> 64"
proof (cases "s = 0")
  case True then show ?thesis by simp
next
  case False
  then have "0 < unat s" by (simp add: unat_gt_0)
  moreover have "unat s \<le> 2 ^ 64" using unsigned_less [of s, where ?'a = nat] by simp
  ultimately show ?thesis by (simp add: ceillog2_le_iff)
qed

lemma bucket_index_range:
  "0 \<le> GetBucketIndexFromSize s \<and> GetBucketIndexFromSize s \<le> 48"
  using ceillog2_word_le [of s] by (simp add: bucket_index_nat)

lemma unat_push_bit_one:
  assumes "n < 64"
  shows "unat (push_bit n 1 :: 64 word) = 2 ^ n"
proof -
  have "(push_bit n 1 :: 64 word) = word_of_nat (2 ^ n)" by (simp add: push_bit_eq_mult)
  then have "unat (push_bit n 1 :: 64 word) = 2 ^ n mod 2 ^ 64"
    by (simp only: unat_of_nat) simp
  moreover have "(2 ^ n :: nat) < 2 ^ 64"
    by (rule power_strict_increasing) (use assms in simp_all)
  ultimately show ?thesis by simp
qed

lemma unat_required_size:
  fixes s :: "64 word"
  assumes "s \<noteq> 0" "s \<le> 2 ^ 63"
  shows "unat (ComputeRequiredSize s) = 2 ^ (16 + (ceillog2 (unat s) - 16))"
proof -
  have pos: "0 < unat s" using assms(1) by (simp add: unat_gt_0)
  have "unat s \<le> unat (2 ^ 63 :: 64 word)" using assms(2) by (simp add: word_le_nat_alt)
  then have "unat s \<le> 2 ^ 63" by simp
  then have "ceillog2 (unat s) \<le> 63" using pos by (simp add: ceillog2_le_iff)
  then have "16 + (ceillog2 (unat s) - 16) < 64" by simp
  then show ?thesis
    by (simp only: required_size_push unat_push_bit_one)
qed

lemma alloc_example:
  "(case Alloc pick True 100 fresh_allocator of (r, a) \<Rightarrow>
       r = Inr 1 \<and> map_option info_bucket (GetAllocationInfo 1 a) = Some (Some 0) \<and>
       map_option (resourceBytes \<circ> info_resource) (GetAllocationInfo 1 a) = Some 65536)"
  "(case Alloc pick True 65537 fresh_allocator of (r, a) \<Rightarrow>
       r = Inr 1 \<and> map_option info_bucket (GetAllocationInfo 1 a) = Some (Some 1) \<and>
       map_option (resourceBytes \<circ> info_resource) (GetAllocationInfo 1 a) = Some 131072)"
  "(case Alloc pick True (push_bit 20 1) fresh_allocator of (r, a) \<Rightarrow>
       r = Inr 1 \<and> map_option info_bucket (GetAllocationInfo 1 a) = Some (Some 4) \<and>
       map_option (resourceBytes \<circ> info_resource) (GetAllocationInfo 1 a) = Some 1048576)"
  by (simp_all add: bucket_defs)

text \<open>
  Claim C9, amended. For every size \<open>s > 0\<close> the bucket index of \<open>s\<close> is
  \<open>max(0, \<lceil>log2 s\<rceil> - 16)\<close>. For every size \<open>s\<close> with \<open>0 < s \<le> 2^63\<close>,
  \<open>ComputeRequiredSize s\<close> is \<open>2^16\<close> when \<open>s \<le> 2^16\<close> and otherwise the least power of two
  that is at least \<open>s\<close>, and it is the size \<open>2^(16 + index)\<close> of the bucket of \<open>s\<close>. On a fresh
  allocator \<open>Alloc(100)\<close> lands in bucket 0 with a backing of 65536 bytes, \<open>Alloc(65537)\<close> in
  bucket 1 with 131072 bytes and \<open>Alloc(1 << 20)\<close> in bucket 4 with 1048576 bytes.
\<close>
theorem ComputeRequiredSize_rounds_to_bucket:
  fixes s :: "64 word"
  assumes "0 < s"
  shows "GetBucketIndexFromSize s = max 0 (\<lceil>log 2 (real (unat s))\<rceil> - 16) \<and>
         (s \<le> 2 ^ 63 \<longrightarrow>
            (s \<le> 2 ^ 16 \<longrightarrow> ComputeRequiredSize s = 2 ^ 16) \<and>
            (2 ^ 16 < s \<longrightarrow>
               (\<exists>k. unat (ComputeRequiredSize s) = 2 ^ k) \<and> s \<le> ComputeRequiredSize s \<and>
               (\<forall>k. unat s \<le> 2 ^ k \<longrightarrow> unat (ComputeRequiredSize s) \<le> 2 ^ k)) \<and>
            unat (ComputeRequiredSize s) = 2 ^ nat (16 + GetBucketIndexFromSize s)) \<and>
         (case Alloc pick True 100 fresh_allocator of (r, a) \<Rightarrow>
            r = Inr 1 \<and> map_option info_bucket (GetAllocationInfo 1 a) = Some (Some 0) \<and>
            map_option (resourceBytes \<circ> info_resource) (GetAllocationInfo 1 a) = Some 65536) \<and>
         (case Alloc pick True 65537 fresh_allocator of (r, a) \<Rightarrow>
            r = Inr 1 \<and> map_option info_bucket (GetAllocationInfo 1 a) = Some (Some 1) \<and>
            map_option (resourceBytes \<circ> info_resource) (GetAllocationInfo 1 a) = Some 131072) \<and>
         (case Alloc pick True (push_bit 20 1) fresh_allocator of (r, a) \<Rightarrow>
            r = Inr 1 \<and> map_option info_bucket (GetAllocationInfo 1 a) = Some (Some 4) \<and>
            map_option (resourceBytes \<circ> info_resource) (GetAllocationInfo 1 a) = Some 1048576)"
    (is "?I \<and> (?B \<longrightarrow> ?M) \<and> ?E")
proof -
  have s0: "s \<noteq> 0" using assms by auto
  have pos: "0 < unat s" using s0 by (simp add: unat_gt_0)
  have idx: "GetBucketIndexFromSize s = max 0 (\<lceil>log 2 (real (unat s))\<rceil> - 16)"
    using ceillog2_int [OF pos] by (simp add: bucket_index_nat)
  have u16: "unat (2 ^ 16 :: 64 word) = 2 ^ 16" by simp
  {
    assume b: "s \<le> 2 ^ 63"
    note R = unat_required_size [OF s0 b]
    have small: "ComputeRequiredSize s = 2 ^ 16" if "s \<le> 2 ^ 16"
    proof -
      have "unat s \<le> 2 ^ 16" using that unfolding word_le_nat_alt u16 .
      then have "ceillog2 (unat s) \<le> 16" using pos by (simp add: ceillog2_le_iff)
      then have "unat (ComputeRequiredSize s) = unat (2 ^ 16 :: 64 word)"
        by (simp add: R)
      then show ?thesis by (rule word_unat_eq_iff [THEN iffD2])
    qed
    have large: "unat (ComputeRequiredSize s) = 2 ^ ceillog2 (unat s)" if "2 ^ 16 < s"
    proof -
      have "2 ^ 16 < unat s" using that unfolding word_less_nat_alt u16 .
      then have "\<not> ceillog2 (unat s) \<le> 16" using pos by (simp add: ceillog2_le_iff)
      then show ?thesis by (simp add: R)
    qed
    have ge: "s \<le> ComputeRequiredSize s" if "2 ^ 16 < s"
      unfolding word_le_nat_alt large [OF that] by (rule le_two_power_ceillog2)
    have least: "unat (ComputeRequiredSize s) \<le> 2 ^ k" if "2 ^ 16 < s" "unat s \<le> 2 ^ k" for k
    proof -
      have "ceillog2 (unat s) \<le> k" using pos that(2) by (simp add: ceillog2_le_iff)
      then show ?thesis by (simp add: large [OF that(1)])
    qed
    have sz: "unat (ComputeRequiredSize s) = 2 ^ nat (16 + GetBucketIndexFromSize s)"
      by (simp add: R bucket_index_nat nat_add_distrib)
    have ?M
      using small large ge least sz by blast
  }
  then have "?B \<longrightarrow> ?M" by (rule impI)
  moreover have ?E by (intro conjI) (rule alloc_example)+
  ultimately show ?thesis using idx by blast
qed

theorem ComputeRequiredSize_rounds_to_bucket_witness:
  "ComputeRequiredSize 65537 = 131072 \<and> GetBucketIndexFromSize 65537 = 1 \<and>
   (65537 :: 64 word) \<le> ComputeRequiredSize 65537 \<and>
   unat (ComputeRequiredSize 65537) \<le> 2 ^ 17 \<and>
   ComputeRequiredSize 100 = 65536 \<and> GetBucketIndexFromSize 100 = 0"
proof -
  have a: "(0::64 word) < 65537" and b: "(0::64 word) < 100" by simp_all
  have a': "(65537::64 word) \<le> 2 ^ 63" "(2 ^ 16 :: 64 word) < 65537" by simp_all
  have b': "(100::64 word) \<le> 2 ^ 63" "(100 :: 64 word) \<le> 2 ^ 16" by simp_all
  have c: "ceillog2 65537 = 17" "ceillog2 100 = 7"
    by (simp_all add: ceillog2_rec)
  have k: "unat (65537 :: 64 word) \<le> 2 ^ 17" by simp
  note A = ComputeRequiredSize_rounds_to_bucket
    [OF a, THEN conjunct2, THEN conjunct1, rule_format, OF a'(1)]
  note B = ComputeRequiredSize_rounds_to_bucket
    [OF b, THEN conjunct2, THEN conjunct1, rule_format, OF b'(1)]
  note L = A [THEN conjunct2, THEN conjunct1, rule_format, OF a'(2)]
  have 0: "GetBucketIndexFromSize 65537 = 1" "GetBucketIndexFromSize 100 = 0"
    using ComputeRequiredSize_rounds_to_bucket [OF a, THEN conjunct1]
      ComputeRequiredSize_rounds_to_bucket [OF b, THEN conjunct1]
    by (simp_all add: bucket_index_nat c)
  have 1: "unat (ComputeRequiredSize 65537) = unat (131072 :: 64 word)"
    using A [THEN conjunct2, THEN conjunct2] by (simp add: 0)
  have 2: "ComputeRequiredSize 100 = 65536"
    using B [THEN conjunct1, rule_format, OF b'(2)] by simp
  have 3: "(65537 :: 64 word) \<le> ComputeRequiredSize 65537"
    by (rule L [THEN conjunct2, THEN conjunct1])
  have 4: "unat (ComputeRequiredSize 65537) \<le> 2 ^ 17"
    by (rule L [THEN conjunct2, THEN conjunct2, rule_format, OF k])
  show ?thesis
    using 0 1 2 3 4 by (simp add: word_unat_eq_iff)
qed

text \<open>
  Claim C9 as stated covers every size \<open>s > 0\<close>. The size \<open>2^63 + 1\<close> is a \<open>size_t\<close>; its bucket
  index is 48 and the next power of two that is at least \<open>2^63 + 1\<close> is \<open>2^64\<close>, which is not a
  \<open>uint64_t\<close>: whatever \<open>ComputeRequiredSize\<close> returns there, it is not that power of two.
\<close>
theorem required_size_above_2_63_counterexample:
  "0 < (2 ^ 63 + 1 :: 64 word) \<and> 2 ^ 16 < (2 ^ 63 + 1 :: 64 word) \<and>
   GetBucketIndexFromSize (2 ^ 63 + 1) = 48 \<and>
   (2 ^ 63 :: nat) < unat (2 ^ 63 + 1 :: 64 word) \<and> unat (2 ^ 63 + 1 :: 64 word) \<le> 2 ^ 64 \<and>
   unat (ComputeRequiredSize (2 ^ 63 + 1)) \<noteq> 2 ^ 64"
  by (simp add: bucket_defs)

subsection \<open>Allocation IDs\<close>

text \<open>
  The lemmas of this subsection hold for every choice of the pooled ID that a reservation
  takes. After any sequence of \<open>Alloc\<close> and \<open>Free\<close> calls on a fresh allocator the live
  allocation IDs are pairwise different and none is 0; a reservation takes an ID of the pool
  when the pool is not empty, leaving the counter as it is, and increments the counter only
  when the pool is empty; every pooled ID is at most the counter.
\<close>

lemma id_inv_fresh: "id_inv fresh_allocator"
  by (simp add: id_inv_def fresh_allocator_def live_ids_def)

lemma word_succ_neq0:
  fixes c :: "32 word"
  assumes "c \<noteq> - 1"
  shows "c + 1 \<noteq> 0"
  using assms by (metis add.commute add_eq_0_iff)

lemma word_succ_gt:
  fixes c :: "32 word"
  assumes "c \<noteq> - 1"
  shows "c < c + 1"
  using assms inc_less_eq_iff by blast

lemma TryReserve_which:
  assumes "TryReserveAllocationID pick a1 = (Some i, a2)"
  shows "allocations_by_id a2 = allocations_by_id a1 \<and>
         (if free_allocation_ids a1 \<noteq> []
          then (\<exists>before after. free_allocation_ids a1 = before @ i # after \<and>
                  free_allocation_ids a2 = before @ after) \<and>
               current_allocation_id a2 = current_allocation_id a1
          else i = current_allocation_id a1 + 1 \<and> current_allocation_id a1 \<noteq> - 1 \<and>
               current_allocation_id a2 = i \<and> free_allocation_ids a2 = [])"
proof (cases "free_allocation_ids a1 = []")
  case True
  with assms show ?thesis
    by (auto simp: TryReserveAllocationID_def split: if_splits)
next
  case False
  define pool where "pool = free_allocation_ids a1"
  define pos where "pos = pick pool mod length pool"
  have lt: "pos < length pool" using False by (simp add: pos_def pool_def)
  have i: "i = pool ! pos" and a2: "a2 = a1\<lparr>free_allocation_ids := take pos pool @ drop (Suc pos) pool\<rparr>"
    using assms False by (simp_all add: TryReserveAllocationID_def Let_def pos_def pool_def)
  have "pool = take pos pool @ i # drop (Suc pos) pool"
    unfolding i by (rule id_take_nth_drop [OF lt])
  then have "\<exists>before after. free_allocation_ids a1 = before @ i # after \<and>
                  free_allocation_ids a2 = before @ after"
    unfolding a2 pool_def [symmetric] by (intro exI [of _ "take pos pool"] exI [of _ "drop (Suc pos) pool"]) simp
  with False a2 show ?thesis by simp
qed

lemma TryReserve_props:
  assumes "id_inv a" and "TryReserveAllocationID pick a = (Some i, a')"
  shows "i \<noteq> 0 \<and> i \<notin> set (live_ids a) \<and> allocations_by_id a' = allocations_by_id a \<and>
         distinct (free_allocation_ids a' @ i # live_ids a) \<and>
         (\<forall>x \<in> set (free_allocation_ids a' @ i # live_ids a). x \<noteq> 0 \<and> x \<le> current_allocation_id a')"
proof (cases "free_allocation_ids a = []")
  case False
  with TryReserve_which [OF assms(2)] obtain before after where
    "free_allocation_ids a = before @ i # after" "free_allocation_ids a' = before @ after"
    "current_allocation_id a' = current_allocation_id a" "allocations_by_id a' = allocations_by_id a"
    by auto
  with assms(1) show ?thesis
    by (auto simp: id_inv_def live_ids_def)
next
  case True
  with TryReserve_which [OF assms(2)] have c: "current_allocation_id a \<noteq> - 1"
    and i: "i = current_allocation_id a + 1"
    and a': "current_allocation_id a' = i" "free_allocation_ids a' = []"
       "allocations_by_id a' = allocations_by_id a"
    by auto
  have lt: "current_allocation_id a < i"
    unfolding i by (rule word_succ_gt [OF c])
  have i0: "i \<noteq> 0" unfolding i by (rule word_succ_neq0 [OF c])
  have old: "\<forall>x \<in> set (live_ids a). x \<le> current_allocation_id a \<and> x \<noteq> 0"
    using assms(1) by (auto simp: id_inv_def)
  then have "\<forall>x \<in> set (live_ids a). x < i"
    using lt by (meson order.strict_trans1)
  then have "i \<notin> set (live_ids a)" by auto
  moreover have "\<forall>x \<in> set (live_ids a). x \<le> i"
    using old lt by (meson order.strict_trans1 order.strict_implies_order)
  moreover have "distinct (live_ids a)"
    using assms(1) by (simp add: id_inv_def)
  ultimately show ?thesis
    using True a' i0 old by simp
qed

lemma id_inv_upd [simp]:
  "id_inv (a\<lparr>m_pool := p\<rparr>) = id_inv a"
  "id_inv (a\<lparr>m_currentResourceId := r\<rparr>) = id_inv a"
  by (simp_all add: id_inv_def live_ids_def)

lemma live_ids_upd [simp]:
  "live_ids (a\<lparr>m_pool := p\<rparr>) = live_ids a"
  "live_ids (a\<lparr>m_currentResourceId := r\<rparr>) = live_ids a"
  "live_ids (a\<lparr>allocations_by_id := m\<rparr>) = map fst m"
  by (simp_all add: live_ids_def)

lemma TryReserve_step:
  assumes tr: "TryReserveAllocationID pick a1 = (Some i, a2)" and inv: "id_inv a1"
  shows "i \<noteq> 0 \<and> i \<notin> set (live_ids a1) \<and>
         id_inv (a2\<lparr>allocations_by_id := allocations_by_id a2 @ [(i, info)]\<rparr>) \<and>
         map fst (allocations_by_id a2) = live_ids a1"
  using TryReserve_props [OF inv tr] by (auto simp: id_inv_def live_ids_def)

lemma Alloc_ids:
  assumes inv: "id_inv a" and al: "Alloc pick ok n a = (Inr i, a')"
  shows "i \<noteq> 0 \<and> i \<notin> set (live_ids a) \<and> live_ids a' = live_ids a @ [i] \<and> id_inv a'"
  using al inv unfolding Alloc_def Let_def
  by (auto split: if_splits prod.splits option.splits dest!: TryReserve_step)

lemma Alloc_Inl:
  assumes "fst (Alloc pick ok n a) = Inl e"
  shows "snd (Alloc pick ok n a) = a"
  using assms by (auto simp: Alloc_def Let_def split: if_splits prod.splits option.splits)

lemma id_inv_Alloc:
  assumes "id_inv a"
  shows "id_inv (snd (Alloc pick ok n a))"
proof (cases "fst (Alloc pick ok n a)")
  case (Inl e)
  with assms show ?thesis by (simp add: Alloc_Inl)
next
  case (Inr i)
  then have "Alloc pick ok n a = (Inr i, snd (Alloc pick ok n a))"
    by (metis prod.collapse)
  from Alloc_ids [OF assms this] show ?thesis by simp
qed

lemma id_inv_Free:
  assumes "id_inv a"
  shows "id_inv (snd (Free p a))"
proof (cases "map_of (allocations_by_id a) p")
  case None
  with assms show ?thesis by (simp add: Free_def)
next
  case (Some info)
  then have p: "p \<in> set (live_ids a)"
    by (auto simp: live_ids_def dest: map_of_SomeD intro: rev_image_eqI)
  have "map fst (filter (\<lambda>kv. fst kv \<noteq> p) (allocations_by_id a)) = filter (\<lambda>k. k \<noteq> p) (live_ids a)"
    by (simp add: live_ids_def filter_map comp_def)
  with Some p assms show ?thesis
    by (auto simp: Free_def Let_def ReleaseAllocationID_def id_inv_def live_ids_def)
qed

lemma id_inv_run: "id_inv (bucket_run pick calls)"
proof -
  have "id_inv a \<Longrightarrow> id_inv (fold (bucket_step pick) calls a)" for a
  proof (induction calls arbitrary: a)
    case Nil
    then show ?case by simp
  next
    case (Cons c cs)
    have "id_inv (bucket_step pick c a)"
      using Cons.prems by (cases c) (simp_all add: id_inv_Alloc id_inv_Free)
    then show ?case by (simp add: Cons.IH)
  qed
  then show ?thesis by (simp add: bucket_run_def id_inv_fresh)
qed

lemma Alloc_which:
  assumes "Alloc pick ok n a = (Inr i, a')"
  shows "if free_allocation_ids a \<noteq> []
         then (\<exists>before after. free_allocation_ids a = before @ i # after \<and>
                 free_allocation_ids a' = before @ after) \<and>
              current_allocation_id a' = current_allocation_id a
         else i = current_allocation_id a + 1 \<and> current_allocation_id a' = i \<and>
              free_allocation_ids a' = []"
  using assms unfolding Alloc_def Let_def
  by (auto split: if_splits prod.splits option.splits dest!: TryReserve_which)

lemma Free_ids:
  assumes "Free p a = (Inr (), a')"
  shows "p \<in> set (live_ids a) \<and> free_allocation_ids a' = free_allocation_ids a @ [p] \<and>
         live_ids a' = filter (\<lambda>k. k \<noteq> p) (live_ids a) \<and>
         current_allocation_id a' = current_allocation_id a"
proof (cases "map_of (allocations_by_id a) p")
  case None
  with assms show ?thesis by (simp add: Free_def)
next
  case (Some info)
  then have p: "p \<in> set (live_ids a)"
    by (auto simp: live_ids_def dest: map_of_SomeD intro: rev_image_eqI)
  have "map fst (filter (\<lambda>kv. fst kv \<noteq> p) (allocations_by_id a)) = filter (\<lambda>k. k \<noteq> p) (live_ids a)"
    by (simp add: live_ids_def filter_map comp_def)
  with Some p assms show ?thesis
    by (auto simp: Free_def Let_def ReleaseAllocationID_def live_ids_def)
qed

lemma allocation_ids_distinct:
  "distinct (live_ids (bucket_run pick calls)) \<and> 0 \<notin> set (live_ids (bucket_run pick calls))"
  using id_inv_run [of pick calls] by (auto simp: id_inv_def)

lemma pooled_ids_below_counter:
  "\<forall>x \<in> set (free_allocation_ids (bucket_run pick calls)).
     x \<noteq> 0 \<and> x \<le> current_allocation_id (bucket_run pick calls) \<and>
     x \<notin> set (live_ids (bucket_run pick calls))"
  using id_inv_run [of pick calls] by (auto simp: id_inv_def)

lemma recycle_scenario:
  "(let (r1, a1) = Alloc pick True 100 fresh_allocator;
        (r2, a2) = Alloc pick True 100 a1;
        (r3, a3) = Free 1 a2;
        (r4, a4) = Alloc pick True 100 a3;
        (r5, a5) = Alloc pick True 100 a4
    in [r1, r2, r4, r5]) = [Inr 1, Inr 2, Inr 1, Inr 3]"
  by (simp add: bucket_defs)

section \<open>The pooled upload heap: placement\<close>

lemmas heap_defs =
  Reserve_def CreateChunk_def FindOffsetForAllocation_def Align_def ReclaimAllocations_def
  reclaimable_def IsSignaled_def push_allocation_def find_allocation_def update_allocation_def
  BeginUploadToGpu_def evict_front_def reusable_miss_def reusable_hit_def
  BeginReusableUploadToGpu_def Trim_def CopyBufferRegion_def ExecuteCommandList_def
  GetCurrentCompletionEvent_def QueueReference_def new_heap_def Let_def

lemmas example_defs = K16_def K16_one_def all_ok_def execute_fails_def wrapped_heap_def

lemma Align_round_up_nat:
  assumes "k < 64"
  shows "Align (word_of_nat n) (2 ^ k) = word_of_nat (round_up n (2 ^ k))"
proof -
  have "n + 2 ^ k - 1 = n + (2 ^ k - 1)" by simp
  then have "(word_of_nat (n + 2 ^ k - 1) :: 64 word) = word_of_nat n + word_of_nat (2 ^ k - 1)"
    by (simp only: of_nat_add)
  also have "(word_of_nat (2 ^ k - 1) :: 64 word) = 2 ^ k - 1"
    by (simp add: of_nat_diff)
  finally have m: "(word_of_nat n :: 64 word) + 2 ^ k - 1 = word_of_nat (n + 2 ^ k - 1)"
    by simp
  have r: "round_up n (2 ^ k) = push_bit k (drop_bit k (n + 2 ^ k - 1))"
    by (simp add: round_up_def push_bit_eq_mult drop_bit_eq_div)
  have "(2 ^ k - 1 :: 64 word) = mask k"
    by (simp add: mask_eq_exp_minus_1)
  then have "Align (word_of_nat n) (2 ^ k) = (word_of_nat (n + 2 ^ k - 1) :: 64 word) AND NOT (mask k)"
    unfolding Align_def m by simp
  also have "\<dots> = word_of_nat (push_bit k (drop_bit k (n + 2 ^ k - 1)))"
    by (rule bit_word_eqI) (auto simp: bit_simps)
  finally show ?thesis by (simp add: r)
qed

lemma unat_pow2:
  assumes "k < 64"
  shows "unat (2 ^ k :: 64 word) = 2 ^ k"
proof -
  have "(2 ^ k :: 64 word) = word_of_nat (2 ^ k)" by simp
  then have "unat (2 ^ k :: 64 word) = 2 ^ k mod 2 ^ 64"
    by (simp only: unat_of_nat) simp
  moreover have "(2 ^ k :: nat) < 2 ^ 64"
    by (rule power_strict_increasing) (use assms in simp_all)
  ultimately show ?thesis by simp
qed

lemma find_map_option:
  "find P (map f xs) = map_option f (find (\<lambda>x. P (f x)) xs)"
  by (induction xs) simp_all

lemma word_of_nat_unat_sum: "(word_of_nat (unat a + unat b) :: 64 word) = a + b"
  by simp

lemma spec_candidate_Align:
  assumes "c_allocationAlignment K = 2 ^ k" and "k < 64"
  shows "spec_candidate K chunk =
         Align (offsetInChunk (last (allocations chunk)) + sizeInBytes (last (allocations chunk)))
           (c_allocationAlignment K)"
proof -
  have u: "unat (2 ^ k :: 64 word) = 2 ^ k"
    by (rule unat_pow2 [OF assms(2)])
  show ?thesis
    unfolding spec_candidate_def Let_def assms(1) u
    by (simp only: Align_round_up_nat [OF assms(2), symmetric] word_of_nat_unat_sum)
qed

lemma spec_place_FindOffset:
  assumes "c_allocationAlignment K = 2 ^ k" and "k < 64"
  shows "spec_place K chunk sz = FindOffsetForAllocation K chunk sz"
  unfolding spec_place_def FindOffsetForAllocation_def Let_def spec_candidate_Align [OF assms]
  by simp

lemma Reserve_loop_find:
  "Reserve_loop K cs i sz =
     (case find (\<lambda>j. FindOffsetForAllocation K (cs ! j) sz \<noteq> None) [0..<length cs] of
        None \<Rightarrow> None
      | Some j \<Rightarrow> Some (i + j, the (FindOffsetForAllocation K (cs ! j) sz)))"
proof (induction cs arbitrary: i)
  case Nil
  then show ?case by simp
next
  case (Cons c cs)
  have upt: "[0..<Suc (length cs)] = 0 # map Suc [0..<length cs]"
    by (simp add: upt_conv_Cons map_Suc_upt del: upt_Suc)
  show ?case
  proof (cases "FindOffsetForAllocation K c sz")
    case (Some off)
    then show ?thesis by (simp add: upt del: upt_Suc)
  next
    case None
    then show ?thesis
      by (simp add: upt Cons.IH find_map_option option.case_eq_if option.map_sel del: upt_Suc)
  qed
qed

lemma Max3: "Max {a, b, c} = max (max a b) (c :: 'a :: linorder)"
  by (simp add: max.commute max.left_commute)

text \<open>
  Claim C1. With an alignment that is a power of two, \<open>Reserve\<close> is the placement algorithm
  of the specification: the chunks are tried in order; a chunk smaller than the request is
  skipped and an empty chunk grants offset 0; otherwise the candidate is the end of the last
  allocation rounded up to the alignment (as a machine value, with the overflow guard), case
  A grants the candidate if it fits below the capacity, else offset 0 if the request fits
  below the first allocation, case B grants the candidate only below the first allocation;
  if no chunk accepts, a chunk of size \<open>max(total capacity, minChunkSize, size)\<close> is appended
  and offset 0 in it is returned, unless the device refuses the chunk, which is the error
  the caller gets.
\<close>
theorem Reserve_follows_placement_algorithm:
  assumes "c_allocationAlignment K = 2 ^ k" and "k < 64"
  shows "Reserve K env sz h = spec_Reserve K env sz h"
proof -
  have "spec_place K c sz = FindOffsetForAllocation K c sz" for c
    by (rule spec_place_FindOffset [OF assms])
  then show ?thesis
    unfolding Reserve_def spec_Reserve_def Reserve_loop_find CreateChunk_def Max3
    by (simp add: Let_def split: option.splits)
qed

theorem Reserve_follows_placement_algorithm_witness:
  "c_allocationAlignment K16 = 2 ^ 4 \<and> (4::nat) < 64 \<and>
   spec_Reserve K16 (all_ok 0) 400 wrapped_heap = (Inr (0, 112), wrapped_heap) \<and>
   fst (spec_Reserve K16 (all_ok 0) 700 wrapped_heap) = Inr (1, 0)"
proof -
  have a: "c_allocationAlignment K16 = 2 ^ 4" by (simp add: K16_def)
  have b: "(4::nat) < 64" by simp
  have c: "Reserve K16 (all_ok 0) 400 wrapped_heap = (Inr (0, 112), wrapped_heap)"
    by (simp add: heap_defs example_defs)
  have d: "fst (Reserve K16 (all_ok 0) 700 wrapped_heap) = Inr (1, 0)"
    by (simp add: heap_defs example_defs)
  show ?thesis
    using a b c d Reserve_follows_placement_algorithm [OF a b] by simp
qed

section \<open>The pooled upload heap: what the branches leave alone\<close>

lemma evict_front_keeps_cache:
  assumes "map_of (m_reusableCommandListsCache h) key = None" and "evict_front key h = Inr h'"
  shows "m_reusableCommandListsCache h' = m_reusableCommandListsCache h"
proof -
  have "\<forall>kv \<in> set (m_reusableCommandListsCache h). fst kv \<noteq> key"
    using assms(1) by (metis map_of_eq_None_iff image_eqI)
  then have "filter (\<lambda>kv. fst kv \<noteq> key) (m_reusableCommandListsCache h) = m_reusableCommandListsCache h"
    by (simp add: filter_id_conv)
  with assms(2) show ?thesis
    by (auto simp: evict_front_def split: list.splits option.splits)
qed

lemma reusable_hit_keeps_order:
  "m_reusableCommandLists (snd (reusable_hit env iter srcSize h)) = m_reusableCommandLists h"
  by (simp add: reusable_hit_def Let_def split: option.splits)

lemma Reserve_allocations:
  "concat (map allocations (m_chunks (snd (Reserve K env sz h)))) = concat (map allocations (m_chunks h))"
  by (simp add: Reserve_def CreateChunk_def Let_def split: option.splits)

lemma BeginUploadToGpu_failure_records_nothing:
  assumes "BeginUploadToGpu K env dst dstOff dstState srcSize h = (Inl e, h')"
  shows "concat (map allocations (m_chunks h')) =
         concat (map allocations (m_chunks (ReclaimAllocations env h)))"
proof -
  have "concat (map allocations (m_chunks (snd (Reserve K env srcSize (ReclaimAllocations env h))))) =
        concat (map allocations (m_chunks (ReclaimAllocations env h)))"
    by (rule Reserve_allocations)
  with assms show ?thesis
    unfolding BeginUploadToGpu_def Let_def
    by (auto split: prod.splits sum.splits if_splits)
qed

lemma BeginReusable_cases:
  assumes run: "BeginReusableUploadToGpu K env dst dstOff dstState sz h = (r, h')"
    and key: "key = \<lparr> dstResource = dst, dstOffset = dstOff, srcSizeInBytes = sz \<rparr>"
  obtains
    (undefined) e where "map_of (m_reusableCommandListsCache h) key = None"
      "length (m_reusableCommandLists h) = maxReusableCommandLists K"
      "evict_front key h = Inl e" "r = Inl e" "h' = h"
  | (evict) h1 where "map_of (m_reusableCommandListsCache h) key = None"
      "length (m_reusableCommandLists h) = maxReusableCommandLists K"
      "evict_front key h = Inr h1"
      "reusable_miss K env key sz (ReclaimAllocations env h1) = (r, h')"
  | (miss) "map_of (m_reusableCommandListsCache h) key = None"
      "length (m_reusableCommandLists h) \<noteq> maxReusableCommandLists K"
      "reusable_miss K env key sz (ReclaimAllocations env h) = (r, h')"
  | (hit) iter where "map_of (m_reusableCommandListsCache h) key = Some iter"
      "reusable_hit env iter sz (ReclaimAllocations env h) = (r, h')"
proof (cases "map_of (m_reusableCommandListsCache h) key")
  case (Some iter)
  with run have "reusable_hit env iter sz (ReclaimAllocations env h) = (r, h')"
    by (simp add: BeginReusableUploadToGpu_def Let_def key)
  with Some show ?thesis by (rule hit)
next
  case None
  show ?thesis
  proof (cases "length (m_reusableCommandLists h) = maxReusableCommandLists K")
    case False
    with run None have "reusable_miss K env key sz (ReclaimAllocations env h) = (r, h')"
      by (simp add: BeginReusableUploadToGpu_def Let_def key)
    with None False show ?thesis by (rule miss)
  next
    case True
    show ?thesis
    proof (cases "evict_front key h")
      case (Inl e)
      with run None True have "r = Inl e" "h' = h"
        by (simp_all add: BeginReusableUploadToGpu_def Let_def key)
      with None True Inl show ?thesis by (rule undefined)
    next
      case (Inr h1)
      with run None True have "reusable_miss K env key sz (ReclaimAllocations env h1) = (r, h')"
        by (simp add: BeginReusableUploadToGpu_def Let_def key)
      with None True Inr show ?thesis by (rule evict)
    qed
  qed
qed

section \<open>The pooled upload heap: the chunk invariant\<close>

lemma ring_ordered_iff:
  "ring_ordered xs \<longleftrightarrow> (\<exists>A B. xs = A @ B \<and> sorted_wrt before (B @ A))"
proof
  assume "ring_ordered xs"
  then obtain k where "sorted_wrt before (drop k xs @ take k xs)"
    unfolding ring_ordered_def by blast
  then have "xs = take k xs @ drop k xs \<and> sorted_wrt before (drop k xs @ take k xs)"
    by simp
  then show "\<exists>A B. xs = A @ B \<and> sorted_wrt before (B @ A)" by blast
next
  assume "\<exists>A B. xs = A @ B \<and> sorted_wrt before (B @ A)"
  then obtain A B where xs: "xs = A @ B" and s: "sorted_wrt before (B @ A)" by blast
  have "length A \<in> set [0..<Suc (length xs)]" by (simp add: xs)
  moreover have "sorted_wrt before (drop (length A) xs @ take (length A) xs)"
    using s by (simp add: xs)
  ultimately show "ring_ordered xs" unfolding ring_ordered_def by blast
qed

lemma ring_ordered_filter:
  assumes "ring_ordered xs"
  shows "ring_ordered (filter P xs)"
proof -
  from assms obtain A B where xs: "xs = A @ B" and s: "sorted_wrt before (B @ A)"
    by (auto simp: ring_ordered_iff)
  have "sorted_wrt before (filter P (B @ A))"
    by (rule sorted_wrt_filter [OF s])
  then have "filter P xs = filter P A @ filter P B \<and> sorted_wrt before (filter P B @ filter P A)"
    by (simp add: xs)
  then show ?thesis unfolding ring_ordered_iff by blast
qed

lemma ring_ordered_map:
  assumes "ring_ordered xs"
    and "\<And>a. offsetInChunk (f a) = offsetInChunk a" "\<And>a. sizeInBytes (f a) = sizeInBytes a"
  shows "ring_ordered (map f xs)"
proof -
  from assms(1) obtain A B where xs: "xs = A @ B" and s: "sorted_wrt before (B @ A)"
    by (auto simp: ring_ordered_iff)
  have b: "before (f a) (f b) = before a b" for a b
    by (simp add: before_def alloc_end_def assms(2,3))
  have "sorted_wrt before (map f (B @ A))"
    using s by (simp add: sorted_wrt_map b del: map_append)
  then have "map f xs = map f A @ map f B \<and> sorted_wrt before (map f B @ map f A)"
    by (simp add: xs)
  then show ?thesis unfolding ring_ordered_iff by blast
qed

lemma Align_mod:
  assumes "k < 64"
  shows "Align x (2 ^ k) mod 2 ^ k = 0"
proof -
  have "(2 ^ k - 1 :: 64 word) = mask k"
    by (simp add: mask_eq_exp_minus_1)
  then have "Align x (2 ^ k) = (x + 2 ^ k - 1) AND NOT (mask k)"
    by (simp add: Align_def)
  moreover have "take_bit k ((x + 2 ^ k - 1) AND NOT (mask k)) = (0 :: 64 word)"
    by (rule bit_word_eqI) (auto simp: bit_simps)
  ultimately show ?thesis
    by (simp add: take_bit_eq_mod)
qed

lemma round_up_bounds:
  assumes "0 < a"
  shows "n \<le> round_up n a" and "round_up n a < n + a"
proof -
  have m: "(n + a - 1) mod a < a" using assms by simp
  have "round_up n a = (n + a - 1) - (n + a - 1) mod a"
    by (simp add: round_up_def minus_mod_eq_div_mult)
  with m assms show "n \<le> round_up n a" "round_up n a < n + a"
    by linarith+
qed

lemma unat_Align:
  assumes "k < 64" and "unat x + 2 ^ k \<le> 2 ^ 64"
  shows "unat (Align x (2 ^ k)) = round_up (unat x) (2 ^ k)"
proof -
  have "Align x (2 ^ k) = word_of_nat (round_up (unat x) (2 ^ k))"
    using Align_round_up_nat [OF assms(1), of "unat x"] by simp
  moreover have "round_up (unat x) (2 ^ k) < 2 ^ 64"
    using round_up_bounds(2) [of "2 ^ k" "unat x"] assms(2) by simp
  ultimately show ?thesis
    by (simp add: unat_of_nat)
qed

lemma no_wrap_add:
  fixes c s :: "64 word"
  assumes "\<not> c + s < c"
  shows "unat (c + s) = unat c + unat s"
  using assms unat_plus_simple by fastforce

lemma chain_last:
  assumes "sorted_wrt before xs" and "x \<in> set xs"
  shows "alloc_end x \<le> alloc_end (last xs)"
proof -
  from assms(2) have ne: "xs \<noteq> []" by auto
  then have xs: "xs = butlast xs @ [last xs]" by simp
  show ?thesis
  proof (cases "x = last xs")
    case True
    then show ?thesis by simp
  next
    case False
    with assms(2) xs have "x \<in> set (butlast xs)"
      by (metis Un_iff empty_iff empty_set set_ConsD set_append)
    with assms(1) xs have "before x (last xs)"
      by (metis sorted_wrt_append list.set_intros(1))
    then show ?thesis by (simp add: before_def alloc_end_def)
  qed
qed

lemma chain_hd:
  assumes "sorted_wrt before xs" and "x \<in> set xs"
  shows "unat (offsetInChunk (hd xs)) \<le> unat (offsetInChunk x)"
proof (cases xs)
  case Nil
  with assms(2) show ?thesis by simp
next
  case (Cons y ys)
  show ?thesis
  proof (cases "x = y")
    case True
    then show ?thesis by (simp add: Cons)
  next
    case False
    with assms Cons have "before y x" by auto
    then show ?thesis by (simp add: Cons before_def alloc_end_def)
  qed
qed

lemma ring_ordered_single: "ring_ordered [a]"
proof -
  have "[a] = [a] @ [] \<and> sorted_wrt before ([] @ [a])" by simp
  then show ?thesis unfolding ring_ordered_iff by blast
qed

lemma FindOffset_ring:
  assumes ring: "ring_ordered xs"
    and ne: "xs \<noteq> []"
    and sizes: "\<forall>x \<in> set xs. 0 < unat (sizeInBytes x)"
    and cand: "alloc_end (last xs) \<le> unat (offsetInChunk a)"
    and place:
      "if unat (offsetInChunk (hd xs)) \<le> unat (offsetInChunk (last xs))
       then True
       else alloc_end a \<le> unat (offsetInChunk (hd xs))"
  shows "ring_ordered (xs @ [a])"
proof -
  from ring obtain A B where xs: "xs = A @ B" and s: "sorted_wrt before (B @ A)"
    by (auto simp: ring_ordered_iff)
  show ?thesis
  proof (cases "A = [] \<or> B = []")
    case True
    then have chain: "sorted_wrt before xs" using xs s by auto
    have "\<forall>x \<in> set xs. before x a"
      using chain_last [OF chain] cand by (fastforce simp: before_def)
    then have "sorted_wrt before ([] @ (xs @ [a]))"
      using chain by (simp add: sorted_wrt_append)
    then have "xs @ [a] = (xs @ [a]) @ [] \<and> sorted_wrt before ([] @ (xs @ [a]))" by simp
    then show ?thesis unfolding ring_ordered_iff by blast
  next
    case False
    then have A: "A \<noteq> []" and B: "B \<noteq> []" by auto
    have hd: "hd xs = hd A" and last: "last xs = last B"
      using A B by (simp_all add: xs)
    have sA: "sorted_wrt before A" and sB: "sorted_wrt before B"
      and BA: "\<forall>b \<in> set B. \<forall>x \<in> set A. before b x"
      using s by (auto simp: sorted_wrt_append)
    have "before (last B) (hd A)" using BA A B by simp
    then have "alloc_end (last B) \<le> unat (offsetInChunk (hd A))"
      by (simp add: before_def)
    moreover have "0 < unat (sizeInBytes (last B))"
      using sizes B by (simp add: xs)
    ultimately have wrap: "\<not> unat (offsetInChunk (hd xs)) \<le> unat (offsetInChunk (last xs))"
      by (simp add: hd last alloc_end_def)
    with place have fit: "alloc_end a \<le> unat (offsetInChunk (hd A))"
      by (simp add: hd)
    have "\<forall>b \<in> set B. before b a"
      using chain_last [OF sB] cand by (fastforce simp: before_def last)
    moreover have "\<forall>x \<in> set A. before a x"
      using chain_hd [OF sA] fit by (fastforce simp: before_def)
    ultimately have "sorted_wrt before ((B @ [a]) @ A)"
      using sA sB BA by (auto simp: sorted_wrt_append)
    then have "xs @ [a] = A @ (B @ [a]) \<and> sorted_wrt before ((B @ [a]) @ A)"
      by (simp add: xs)
    then show ?thesis unfolding ring_ordered_iff by blast
  qed
qed

lemma FindOffset_ring_wrap:
  assumes ring: "ring_ordered xs"
    and ne: "xs \<noteq> []"
    and sizes: "\<forall>x \<in> set xs. 0 < unat (sizeInBytes x)"
    and caseA: "unat (offsetInChunk (hd xs)) \<le> unat (offsetInChunk (last xs))"
    and fit: "alloc_end a \<le> unat (offsetInChunk (hd xs))"
  shows "ring_ordered (xs @ [a])"
proof -
  from ring obtain A B where xs: "xs = A @ B" and s: "sorted_wrt before (B @ A)"
    by (auto simp: ring_ordered_iff)
  have chain: "sorted_wrt before xs"
  proof (cases "A = [] \<or> B = []")
    case True
    then show ?thesis using xs s by auto
  next
    case False
    then have A: "A \<noteq> []" and B: "B \<noteq> []" by auto
    have "before (last B) (hd A)" using s A B by (simp add: sorted_wrt_append)
    moreover have "0 < unat (sizeInBytes (last B))"
      using sizes B by (simp add: xs)
    ultimately have "\<not> unat (offsetInChunk (hd xs)) \<le> unat (offsetInChunk (last xs))"
      using A B by (simp add: xs before_def alloc_end_def)
    with caseA show ?thesis by simp
  qed
  have "\<forall>x \<in> set xs. before a x"
    using chain_hd [OF chain] fit by (fastforce simp: before_def)
  then have "sorted_wrt before ([a] @ xs)"
    using chain by simp
  then have "xs @ [a] = xs @ [a] \<and> sorted_wrt before ([a] @ xs)" by simp
  then show ?thesis unfolding ring_ordered_iff by blast
qed

lemma unat_pos: "(w :: 64 word) \<noteq> 0 \<Longrightarrow> 0 < unat w"
  by (simp add: unat_gt_0)

lemma chunk_inv_push:
  assumes inv: "chunk_inv K c"
    and al: "c_allocationAlignment K = 2 ^ k" "k < 64"
    and fits: "unat (capacityInBytes c) + 2 ^ k \<le> 2 ^ 64"
    and sz: "sz \<noteq> 0"
    and f: "FindOffsetForAllocation K c sz = Some off"
    and a: "offsetInChunk a = off" "sizeInBytes a = sz"
  shows "chunk_inv K (c\<lparr>allocations := allocations c @ [a]\<rparr>)"
proof -
  let ?xs = "allocations c"
  let ?cap = "capacityInBytes c"
  have res: "case resource c of None \<Rightarrow> False | Some r \<Rightarrow> Width r = ?cap"
    and old: "\<forall>x \<in> set ?xs. sizeInBytes x \<noteq> 0 \<and> alloc_end x \<le> unat ?cap \<and>
                offsetInChunk x mod c_allocationAlignment K = 0"
    and ring: "ring_ordered ?xs"
    using inv by (simp_all add: chunk_inv_def)
  have sizes: "\<forall>x \<in> set ?xs. 0 < unat (sizeInBytes x)"
    using old by (simp add: unat_pos)
  have big: "\<not> ?cap < sz"
    using f by (auto simp: FindOffsetForAllocation_def split: if_splits)
  then have szcap: "unat sz \<le> unat ?cap"
    by (simp add: word_less_nat_alt)
  have new: "alloc_end a \<le> unat ?cap \<and> offsetInChunk a mod c_allocationAlignment K = 0 \<and>
             ring_ordered (?xs @ [a])"
  proof (cases "?xs = []")
    case True
    with f big have "off = 0"
      by (simp add: FindOffsetForAllocation_def)
    then show ?thesis
      using szcap True a by (simp add: alloc_end_def ring_ordered_single)
  next
    case False
    define l where "l = last ?xs"
    define fi where "fi = hd ?xs"
    define cand where "cand = Align (offsetInChunk l + sizeInBytes l) (2 ^ k)"
    have l: "l \<in> set ?xs" and fi: "fi \<in> set ?xs"
      using False by (simp_all add: l_def fi_def)
    have lend: "alloc_end l \<le> unat ?cap" and fend: "alloc_end fi \<le> unat ?cap"
      using old l fi by simp_all
    have pos: "(0::nat) < 2 ^ k" by simp
    have "unat (offsetInChunk l) + unat (sizeInBytes l) < 2 ^ 64"
      using lend fits pos unfolding alloc_end_def by linarith
    then have x: "unat (offsetInChunk l + sizeInBytes l) = alloc_end l"
      by (simp add: alloc_end_def unat_add_lem [THEN iffD1])
    have "unat (offsetInChunk l + sizeInBytes l) + 2 ^ k \<le> 2 ^ 64"
      using lend fits x by simp
    then have "unat cand = round_up (alloc_end l) (2 ^ k)"
      unfolding cand_def using unat_Align [OF al(2)] x by simp
    then have cand_ge: "alloc_end l \<le> unat cand"
      using round_up_bounds(1) [of "2 ^ k" "alloc_end l"] by simp
    have cand_al: "cand mod c_allocationAlignment K = 0"
      unfolding cand_def al(1) by (rule Align_mod [OF al(2)])
    from f False big have guard: "\<not> cand + sz < cand"
      and branch:
        "(if offsetInChunk fi \<le> offsetInChunk l
          then (if cand + sz \<le> ?cap then Some cand
                else if 0 + sz \<le> offsetInChunk fi then Some 0 else None)
          else (if cand + sz \<le> offsetInChunk fi then Some cand else None)) = Some off"
      by (auto simp: FindOffsetForAllocation_def Let_def cand_def l_def fi_def al(1)
          split: if_splits)
    have sum: "unat (cand + sz) = unat cand + unat sz"
      by (rule no_wrap_add [OF guard])
    have fi_le: "unat (offsetInChunk fi) \<le> unat ?cap"
      using fend by (simp add: alloc_end_def)
    show ?thesis
    proof (cases "off = cand")
      case True
      have "alloc_end a \<le> unat ?cap \<and>
            (\<not> unat (offsetInChunk fi) \<le> unat (offsetInChunk l) \<longrightarrow>
               alloc_end a \<le> unat (offsetInChunk fi))"
        using branch fi_le sum True a
        by (auto simp: alloc_end_def word_le_nat_alt split: if_splits)
      moreover from this have "ring_ordered (?xs @ [a])"
        using FindOffset_ring [OF ring False sizes, of a] cand_ge True a
        by (simp add: l_def fi_def)
      ultimately show ?thesis
        using cand_al True a by simp
    next
      case False
      with branch have wrap: "off = 0" "offsetInChunk fi \<le> offsetInChunk l"
          "sz \<le> offsetInChunk fi"
        by (auto split: if_splits)
      have e: "alloc_end a \<le> unat (offsetInChunk fi)"
        using wrap a by (simp add: alloc_end_def word_le_nat_alt)
      have "ring_ordered (?xs @ [a])"
        using FindOffset_ring_wrap [OF ring \<open>?xs \<noteq> []\<close> sizes, of a] wrap(2) e
        by (simp add: l_def fi_def word_le_nat_alt)
      then show ?thesis
        using e fi_le wrap a by simp
    qed
  qed
  show ?thesis
    unfolding chunk_inv_def using res old new sz a by (auto split: option.splits)
qed

lemma chunk_inv_filter:
  assumes "chunk_inv K c"
  shows "chunk_inv K (c\<lparr>allocations := filter P (allocations c)\<rparr>)"
  using assms by (auto simp: chunk_inv_def ring_ordered_filter split: option.splits)

lemma chunk_inv_map:
  assumes "chunk_inv K c"
    and "\<And>a. offsetInChunk (f a) = offsetInChunk a" "\<And>a. sizeInBytes (f a) = sizeInBytes a"
  shows "chunk_inv K (c\<lparr>allocations := map f (allocations c)\<rparr>)"
  using assms by (auto simp: chunk_inv_def ring_ordered_map alloc_end_def split: option.splits)

lemma chunk_inv_new:
  "chunk_inv K \<lparr> capacityInBytes = sz, resource = Some \<lparr> handle = n, Width = sz \<rparr>, allocations = [] \<rparr>"
  by (simp add: chunk_inv_def ring_ordered_def)

lemma pool_bytes_simps [simp]:
  "pool_bytes [] = 0"
  "pool_bytes (c # cs) = unat (capacityInBytes c) + pool_bytes cs"
  "pool_bytes (cs @ ds) = pool_bytes cs + pool_bytes ds"
  by (simp_all add: pool_bytes_def)

lemma pool_bytes_member:
  "c \<in> set cs \<Longrightarrow> unat (capacityInBytes c) \<le> pool_bytes cs"
  by (induction cs) auto

lemma pool_bytes_filter: "pool_bytes (filter P cs) \<le> pool_bytes cs"
  by (induction cs) auto

lemma pool_bytes_map:
  assumes "\<And>c. c \<in> set cs \<Longrightarrow> capacityInBytes (g c) = capacityInBytes c"
  shows "pool_bytes (map g cs) = pool_bytes cs"
  using assms by (induction cs) auto

lemma pool_inv_map:
  assumes "pool_inv K cs t"
    and "\<And>c. c \<in> set cs \<Longrightarrow> capacityInBytes (g c) = capacityInBytes c"
    and "\<And>c. c \<in> set cs \<Longrightarrow> chunk_inv K c \<Longrightarrow> chunk_inv K (g c)"
  shows "pool_inv K (map g cs) t"
proof -
  have caps: "map capacityInBytes (map g cs) = map capacityInBytes cs"
    using assms(2) by simp
  have 1: "sorted (map capacityInBytes (map g cs))"
    unfolding caps using assms(1) by (simp add: pool_inv_def)
  have 2: "\<forall>c \<in> set (map g cs). chunk_inv K c"
    using assms(1,3) by (auto simp: pool_inv_def)
  have 3: "pool_bytes (map g cs) = pool_bytes cs"
    using assms(2) by (rule pool_bytes_map)
  from assms(1) have a: "pool_bytes cs + unat (c_allocationAlignment K) \<le> 2 ^ 64"
    and b: "unat t = pool_bytes cs"
    by (simp_all add: pool_inv_def)
  show ?thesis
    unfolding pool_inv_def 3 by (intro conjI a b 1 2)
qed

lemma pool_inv_update:
  assumes inv: "pool_inv K cs t" and i: "i < length cs"
    and cap: "capacityInBytes c' = capacityInBytes (cs ! i)"
    and c': "chunk_inv K c'"
  shows "pool_inv K (cs[i := c']) t"
proof -
  have caps: "map capacityInBytes (cs[i := c']) = map capacityInBytes cs"
    using i cap by (simp add: map_update list_update_same_conv)
  have "pool_bytes (cs[i := c']) = sum_list (map unat (map capacityInBytes (cs[i := c'])))"
    by (simp add: pool_bytes_def comp_def)
  also have "\<dots> = pool_bytes cs"
    unfolding caps by (simp add: pool_bytes_def comp_def)
  finally have bytes: "pool_bytes (cs[i := c']) = pool_bytes cs" .
  have "\<forall>c \<in> set (cs[i := c']). chunk_inv K c"
    using inv c' set_update_subset_insert [of cs i c'] by (auto simp: pool_inv_def)
  then show ?thesis
    using inv caps bytes by (simp add: pool_inv_def)
qed

lemma pool_inv_append:
  assumes inv: "pool_inv K cs t"
    and new: "capacityInBytes c = max (max t m) sz" "chunk_inv K c"
    and fits: "pool_bytes (cs @ [c]) + unat (c_allocationAlignment K) \<le> 2 ^ 64"
    and pos: "0 < unat (c_allocationAlignment K)"
  shows "pool_inv K (cs @ [c]) (t + capacityInBytes c)"
proof -
  have t: "unat t = pool_bytes cs" using inv by (simp add: pool_inv_def)
  have "t \<le> capacityInBytes c" by (simp add: new(1) le_max_iff_disj)
  then have tc: "unat t \<le> unat (capacityInBytes c)" by (simp add: word_le_nat_alt)
  have "\<forall>x \<in> set cs. unat (capacityInBytes x) \<le> unat (capacityInBytes c)"
    using pool_bytes_member [of _ cs] t tc by fastforce
  then have "\<forall>x \<in> set cs. capacityInBytes x \<le> capacityInBytes c"
    by (simp add: word_le_nat_alt)
  then have sorted: "sorted (map capacityInBytes (cs @ [c]))"
    using inv by (simp add: pool_inv_def sorted_append)
  have "unat t + unat (capacityInBytes c) < 2 ^ 64"
    using fits t pos by simp
  then have "unat (t + capacityInBytes c) = unat t + unat (capacityInBytes c)"
    by (simp add: unat_add_lem [THEN iffD1])
  then show ?thesis
    unfolding pool_inv_def using inv new(2) fits sorted t by (auto simp: pool_inv_def)
qed

lemma fold_capacity:
  "fold (\<lambda>chunk tot. tot + capacityInBytes chunk) cs t0 = t0 + word_of_nat (pool_bytes cs)"
  by (induction cs arbitrary: t0) (simp_all add: algebra_simps)

lemma pool_inv_total:
  assumes "pool_inv K cs t"
  shows "fold (\<lambda>chunk tot. tot + capacityInBytes chunk) cs 0 = t"
proof -
  have "word_of_nat (pool_bytes cs) = t"
    using assms by (simp add: pool_inv_def [of K cs t, THEN iffD1, THEN conjunct2, THEN conjunct1, symmetric])
  then show ?thesis by (simp add: fold_capacity)
qed

lemma pool_inv_filter:
  assumes "pool_inv K cs t"
  shows "pool_inv K (filter P cs) (fold (\<lambda>chunk tot. tot + capacityInBytes chunk) (filter P cs) 0)"
proof -
  have le: "pool_bytes (filter P cs) \<le> pool_bytes cs" by (rule pool_bytes_filter)
  have fits: "pool_bytes cs + unat (c_allocationAlignment K) \<le> 2 ^ 64"
    using assms by (simp add: pool_inv_def)
  have "pool_bytes cs = unat t" using assms by (simp add: pool_inv_def)
  then have "pool_bytes cs < 2 ^ 64" using unsigned_less [of t, where 'a = nat] by simp
  then have "unat (word_of_nat (pool_bytes (filter P cs)) :: 64 word) = pool_bytes (filter P cs)"
    using le by (simp add: unat_of_nat)
  moreover have "sorted (map capacityInBytes (filter P cs))"
    using assms by (simp add: pool_inv_def sorted_map sorted_wrt_filter)
  ultimately show ?thesis
    using assms le fits by (auto simp: pool_inv_def fold_capacity)
qed

lemma is_sorted_capacity:
  "sorted (map f xs) \<Longrightarrow> is_sorted (\<lambda>lhs rhs. f lhs < (f rhs :: 64 word)) xs"
  by (induction "\<lambda>lhs rhs. f lhs < f rhs" xs rule: is_sorted.induct) auto

lemma chain_distinct:
  assumes "sorted_wrt before ys" and "\<forall>a \<in> set ys. 0 < unat (sizeInBytes a)"
  shows "distinct ys"
  using assms
proof (induction ys)
  case Nil
  then show ?case by simp
next
  case (Cons y ys)
  have "y \<notin> set ys"
  proof
    assume "y \<in> set ys"
    with Cons.prems have "before y y" "0 < unat (sizeInBytes y)" by auto
    then show False by (simp add: before_def alloc_end_def)
  qed
  with Cons show ?case by simp
qed

lemma chain_comparable:
  assumes "sorted_wrt before ys" and "a \<in> set ys" and "b \<in> set ys"
  shows "a = b \<or> before a b \<or> before b a"
proof -
  from assms(2,3) obtain i j where i: "i < length ys" "ys ! i = a" and j: "j < length ys" "ys ! j = b"
    by (auto simp: in_set_conv_nth)
  consider "i < j" | "i = j" | "j < i" by linarith
  then show ?thesis
  proof cases
    case 1
    then show ?thesis using sorted_wrt_nth_less [OF assms(1) 1 j(1)] i j by simp
  next
    case 2
    then show ?thesis using i j by simp
  next
    case 3
    then show ?thesis using sorted_wrt_nth_less [OF assms(1) 3 i(1)] i j by simp
  qed
qed

lemma no_overlap_sorted_chain:
  assumes "sorted (map offsetInChunk zs)" and "distinct zs"
    and "\<forall>a \<in> set zs. \<forall>b \<in> set zs. a = b \<or> before a b \<or> before b a"
    and "\<forall>a \<in> set zs. 0 < unat (sizeInBytes a) \<and> alloc_end a < 2 ^ 64"
  shows "no_overlap_sorted zs"
  using assms
proof (induction zs rule: no_overlap_sorted.induct)
  case (1 a b rest)
  have ab: "a \<noteq> b" and le: "unat (offsetInChunk a) \<le> unat (offsetInChunk b)"
    using "1.prems"(1,2) by (auto simp: word_le_nat_alt)
  have "\<not> before b a"
    using le "1.prems"(4) by (auto simp: before_def alloc_end_def)
  with ab "1.prems"(3) have "before a b" by auto
  moreover have "unat (offsetInChunk a + sizeInBytes a) = alloc_end a"
    using "1.prems"(4) by (simp add: alloc_end_def unat_add_lem [THEN iffD1])
  ultimately have "offsetInChunk a + sizeInBytes a \<le> offsetInChunk b"
    by (simp add: before_def word_le_nat_alt)
  moreover have "no_overlap_sorted (b # rest)"
    using "1.prems" by (intro "1.IH") auto
  ultimately show ?case by simp
qed simp_all

lemma ring_no_overlap:
  assumes ring: "ring_ordered xs"
    and sizes: "\<forall>a \<in> set xs. 0 < unat (sizeInBytes a) \<and> alloc_end a < 2 ^ 64"
  shows "no_overlap_sorted (sort_key offsetInChunk xs)"
proof -
  from ring obtain A B where xs: "xs = A @ B" and s: "sorted_wrt before (B @ A)"
    by (auto simp: ring_ordered_iff)
  have set: "set (B @ A) = set xs" by (auto simp: xs)
  have "distinct (B @ A)"
    using chain_distinct [OF s] sizes set by auto
  then have d: "distinct xs" by (auto simp: xs)
  have c: "\<forall>a \<in> set xs. \<forall>b \<in> set xs. a = b \<or> before a b \<or> before b a"
    using chain_comparable [OF s] set by blast
  show ?thesis
    by (rule no_overlap_sorted_chain) (use d c sizes in \<open>simp_all add: sorted_sort_key\<close>)
qed

lemma heap_inv_AssertInvariants:
  assumes "heap_inv K h"
  shows "AssertInvariants K h"
proof -
  let ?cs = "m_chunks h"
  have inv: "pool_inv K ?cs (m_totalCapacity h)"
    using assms by (simp add: heap_inv_def)
  then have chunks: "\<forall>c \<in> set ?cs. chunk_inv K c"
    and sorted: "sorted (map capacityInBytes ?cs)"
    by (simp_all add: pool_inv_def)
  have 1: "is_sorted (\<lambda>lhs rhs. capacityInBytes lhs < capacityInBytes rhs) ?cs"
    by (rule is_sorted_capacity [OF sorted])
  have 2: "\<forall>chunk \<in> set ?cs.
        case resource chunk of None \<Rightarrow> False | Some r \<Rightarrow> capacityInBytes chunk = Width r"
    using chunks by (auto simp: chunk_inv_def split: option.splits)
  have bound: "alloc_end a \<le> unat (capacityInBytes c)" "0 < unat (sizeInBytes a)"
    "offsetInChunk a mod c_allocationAlignment K = 0" "alloc_end a < 2 ^ 64"
    if "c \<in> set ?cs" "a \<in> set (allocations c)" for c a
  proof -
    show e: "alloc_end a \<le> unat (capacityInBytes c)"
      and "0 < unat (sizeInBytes a)" and "offsetInChunk a mod c_allocationAlignment K = 0"
      using chunks that by (auto simp: chunk_inv_def unat_gt_0)
    show "alloc_end a < 2 ^ 64"
      using e unsigned_less [of "capacityInBytes c", where 'a = nat] by simp
  qed
  have 3: "\<forall>chunk \<in> set ?cs. \<forall>alloc \<in> set (allocations chunk).
        offsetInChunk alloc + sizeInBytes alloc \<le> capacityInBytes chunk \<and>
        offsetInChunk alloc mod c_allocationAlignment K = 0"
  proof (intro ballI conjI)
    fix c a assume ca: "c \<in> set ?cs" "a \<in> set (allocations c)"
    have "unat (offsetInChunk a + sizeInBytes a) = alloc_end a"
      using bound(4) [OF ca] by (simp add: alloc_end_def unat_add_lem [THEN iffD1])
    then show "offsetInChunk a + sizeInBytes a \<le> capacityInBytes c"
      using bound(1) [OF ca] by (simp add: word_le_nat_alt)
    show "offsetInChunk a mod c_allocationAlignment K = 0"
      by (rule bound(3) [OF ca])
  qed
  have 4: "\<forall>chunk \<in> set ?cs. no_overlap_sorted (sort_key offsetInChunk (allocations chunk))"
  proof
    fix c assume c: "c \<in> set ?cs"
    then have "ring_ordered (allocations c)"
      using chunks by (simp add: chunk_inv_def)
    then show "no_overlap_sorted (sort_key offsetInChunk (allocations c))"
      by (rule ring_no_overlap) (use bound(2,4) [OF c] in blast)
  qed
  have 5: "fold (\<lambda>chunk tot. tot + capacityInBytes chunk) ?cs 0 = m_totalCapacity h"
    by (rule pool_inv_total [OF inv])
  show ?thesis
    unfolding AssertInvariants_def by (intro conjI 1 2 3 4 5)
qed

lemma heap_inv_upd [simp]:
  "heap_inv K (h\<lparr>m_executionContext := x\<rparr>) = heap_inv K h"
  "heap_inv K (h\<lparr>stagingWrites := w\<rparr>) = heap_inv K h"
  "heap_inv K (h\<lparr>nextHandle := n\<rparr>) = heap_inv K h"
  "heap_inv K (h\<lparr>nextNode := n\<rparr>) = heap_inv K h"
  "heap_inv K (h\<lparr>m_reusableCommandLists := l\<rparr>) = heap_inv K h"
  "heap_inv K (h\<lparr>m_reusableCommandListsCache := m\<rparr>) = heap_inv K h"
  by (simp_all add: heap_inv_def)

lemma pool_fits_upd [simp]:
  "pool_fits K (h\<lparr>m_executionContext := x\<rparr>) = pool_fits K h"
  "pool_fits K (h\<lparr>stagingWrites := w\<rparr>) = pool_fits K h"
  "pool_fits K (h\<lparr>nextHandle := n\<rparr>) = pool_fits K h"
  "pool_fits K (h\<lparr>nextNode := n\<rparr>) = pool_fits K h"
  "pool_fits K (h\<lparr>m_reusableCommandLists := l\<rparr>) = pool_fits K h"
  "pool_fits K (h\<lparr>m_reusableCommandListsCache := m\<rparr>) = pool_fits K h"
  "pool_fits K (h\<lparr>m_totalCapacity := t\<rparr>) = pool_fits K h"
  by (simp_all add: pool_fits_def)

lemma heap_inv_fits: "heap_inv K h \<Longrightarrow> pool_fits K h"
  by (simp add: heap_inv_def pool_inv_def pool_fits_def)

lemma pool_bytes_update:
  "capacityInBytes c' = capacityInBytes (cs ! i) \<Longrightarrow> pool_bytes (cs[i := c']) = pool_bytes cs"
proof (induction cs arbitrary: i)
  case Nil
  then show ?case by simp
next
  case (Cons c cs)
  then show ?case by (cases i) simp_all
qed

lemma pool_bytes_push [simp]: "pool_bytes (push_allocation i a cs) = pool_bytes cs"
  by (simp add: push_allocation_def pool_bytes_update)

lemma pool_bytes_update_allocation [simp]: "pool_bytes (update_allocation p f cs) = pool_bytes cs"
  by (simp add: update_allocation_def pool_bytes_map)

lemma heap_inv_Reclaim:
  assumes "heap_inv K h"
  shows "heap_inv K (ReclaimAllocations env h)"
  using assms unfolding heap_inv_def ReclaimAllocations_def
  by (simp add: pool_inv_map chunk_inv_filter)

lemma pool_inv_update_allocation:
  assumes "pool_inv K cs t"
    and "\<And>a. offsetInChunk (f a) = offsetInChunk a" "\<And>a. sizeInBytes (f a) = sizeInBytes a"
  shows "pool_inv K (update_allocation p f cs) t"
  unfolding update_allocation_def
  by (rule pool_inv_map [OF assms(1)]) (simp_all add: chunk_inv_map assms(2,3))

lemma Reserve_loop_Some:
  assumes "Reserve_loop K cs i0 sz = Some (j, off)"
  shows "i0 \<le> j \<and> j - i0 < length cs \<and> FindOffsetForAllocation K (cs ! (j - i0)) sz = Some off"
  using assms
proof (induction cs arbitrary: i0)
  case Nil
  then show ?case by simp
next
  case (Cons c cs)
  show ?case
  proof (cases "FindOffsetForAllocation K c sz")
    case (Some o')
    with Cons.prems show ?thesis by simp
  next
    case None
    with Cons.prems have "Reserve_loop K cs (Suc i0) sz = Some (j, off)" by simp
    from Cons.IH [OF this] show ?thesis
      by (auto simp: Suc_diff_le)
  qed
qed

lemma FindOffset_empty_chunk:
  assumes "\<not> capacityInBytes c < sz" and "allocations c = []"
  shows "FindOffsetForAllocation K c sz = Some 0"
  using assms by (simp add: FindOffsetForAllocation_def)

lemma Reserve_Inr:
  assumes "Reserve K env sz h = (Inr (i, off), h1)"
  shows "i < length (m_chunks h1) \<and> FindOffsetForAllocation K (m_chunks h1 ! i) sz = Some off"
proof (cases "Reserve_loop K (m_chunks h) 0 sz")
  case (Some found)
  with assms have "found = (i, off)" "h1 = h" by (simp_all add: Reserve_def)
  with Some Reserve_loop_Some [of K "m_chunks h" 0 sz i off] show ?thesis by simp
next
  case None
  define c where "c = \<lparr> capacityInBytes = max (max (m_totalCapacity h) (c_minChunkSize K)) sz,
      resource = Some \<lparr> handle = nextHandle h, Width = max (max (m_totalCapacity h) (c_minChunkSize K)) sz \<rparr>,
      allocations = [] \<rparr>"
  have ok: "createResourceOk env"
    using None assms by (auto simp: Reserve_def CreateChunk_def Let_def split: if_splits)
  then have "Reserve K env sz h =
      (Inr (length (m_chunks h), 0),
       h\<lparr> m_chunks := m_chunks h @ [c],
          m_totalCapacity := m_totalCapacity h + max (max (m_totalCapacity h) (c_minChunkSize K)) sz,
          nextHandle := Suc (nextHandle h) \<rparr>)"
    using None by (simp add: Reserve_def CreateChunk_def Let_def c_def)
  with assms have i: "i = length (m_chunks h)" and off: "off = 0"
    and h1: "m_chunks h1 = m_chunks h @ [c]"
    by auto
  have "\<not> capacityInBytes c < sz" by (simp add: c_def not_less)
  moreover have "allocations c = []" by (simp add: c_def)
  ultimately have "FindOffsetForAllocation K c sz = Some 0"
    by (rule FindOffset_empty_chunk)
  then show ?thesis by (simp add: i off h1)
qed

lemma heap_inv_Reserve:
  assumes inv: "heap_inv K h" and r: "Reserve K env sz h = (r, h1)"
    and fits: "pool_fits K h1" and pos: "0 < unat (c_allocationAlignment K)"
  shows "heap_inv K h1"
proof (cases "Reserve_loop K (m_chunks h) 0 sz")
  case (Some found)
  with r inv show ?thesis by (simp add: Reserve_def)
next
  case None
  show ?thesis
  proof (cases "createResourceOk env")
    case False
    with None r inv show ?thesis by (simp add: Reserve_def CreateChunk_def)
  next
    case True
    define c where "c = \<lparr> capacityInBytes = max (max (m_totalCapacity h) (c_minChunkSize K)) sz,
        resource = Some \<lparr> handle = nextHandle h, Width = max (max (m_totalCapacity h) (c_minChunkSize K)) sz \<rparr>,
        allocations = [] \<rparr>"
    have h1: "h1 = h\<lparr> m_chunks := m_chunks h @ [c],
                      m_totalCapacity := m_totalCapacity h + capacityInBytes c,
                      nextHandle := Suc (nextHandle h) \<rparr>"
      using None True r by (simp add: Reserve_def CreateChunk_def Let_def c_def)
    have "pool_inv K (m_chunks h @ [c]) (m_totalCapacity h + capacityInBytes c)"
    proof (rule pool_inv_append)
      show "pool_inv K (m_chunks h) (m_totalCapacity h)" using inv by (simp add: heap_inv_def)
      show "capacityInBytes c = max (max (m_totalCapacity h) (c_minChunkSize K)) sz"
        by (simp add: c_def)
      show "chunk_inv K c" unfolding c_def by (rule chunk_inv_new)
      show "pool_bytes (m_chunks h @ [c]) + unat (c_allocationAlignment K) \<le> 2 ^ 64"
        using fits by (simp add: h1 pool_fits_def)
      show "0 < unat (c_allocationAlignment K)" by (rule pos)
    qed
    then show ?thesis by (simp add: h1 heap_inv_def)
  qed
qed

lemma pool_inv_push:
  assumes inv: "pool_inv K cs t"
    and al: "c_allocationAlignment K = 2 ^ k" "k < 64"
    and i: "i < length cs"
    and f: "FindOffsetForAllocation K (cs ! i) sz = Some off"
    and sz: "sz \<noteq> 0"
    and a: "offsetInChunk a = off" "sizeInBytes a = sz"
  shows "pool_inv K (push_allocation i a cs) t"
  unfolding push_allocation_def
proof (rule pool_inv_update [OF inv i])
  show "capacityInBytes ((cs ! i)\<lparr>allocations := allocations (cs ! i) @ [a]\<rparr>) = capacityInBytes (cs ! i)"
    by simp
  have mem: "cs ! i \<in> set cs" using i by simp
  have "unat (capacityInBytes (cs ! i)) \<le> pool_bytes cs"
    by (rule pool_bytes_member [OF mem])
  moreover have "pool_bytes cs + 2 ^ k \<le> 2 ^ 64"
    using inv al unat_pow2 [OF al(2)] by (simp add: pool_inv_def)
  ultimately have fits: "unat (capacityInBytes (cs ! i)) + 2 ^ k \<le> 2 ^ 64" by linarith
  have "chunk_inv K (cs ! i)" using inv mem by (simp add: pool_inv_def)
  then show "chunk_inv K ((cs ! i)\<lparr>allocations := allocations (cs ! i) @ [a]\<rparr>)"
    by (rule chunk_inv_push [OF _ al fits sz f a])
qed

lemma BeginUpload_shape:
  assumes "BeginUploadToGpu K env dst dstOff dstState sz h = (r, h')"
    and "Reserve K env sz (ReclaimAllocations env h) = (res, h1)"
  shows "m_totalCapacity h' = m_totalCapacity h1 \<and>
         (m_chunks h' = m_chunks h1 \<or>
          (\<exists>i off d n. res = Inr (i, off) \<and>
             m_chunks h' =
               push_allocation i
                 \<lparr> sizeInBytes = sz, offsetInChunk = off, doneEvent = d, locked = False, node = n \<rparr>
                 (m_chunks h1)))"
  using assms unfolding BeginUploadToGpu_def Let_def
  by (auto split: sum.splits prod.splits if_splits; blast)

lemma heap_inv_BeginUpload:
  assumes inv: "heap_inv K h"
    and al: "c_allocationAlignment K = 2 ^ k" "k < 64"
    and sz: "sz \<noteq> 0"
    and run: "BeginUploadToGpu K env dst dstOff dstState sz h = (r, h')"
    and fits: "pool_fits K h'"
  shows "heap_inv K h'"
proof -
  obtain res h1 where R: "Reserve K env sz (ReclaimAllocations env h) = (res, h1)"
    by force
  note shape = BeginUpload_shape [OF run R]
  have "pool_bytes (m_chunks h') = pool_bytes (m_chunks h1)"
    using shape by auto
  then have fits1: "pool_fits K h1"
    using fits by (simp add: pool_fits_def)
  have pos: "0 < unat (c_allocationAlignment K)"
    by (simp add: al unat_pow2)
  have inv1: "heap_inv K h1"
    by (rule heap_inv_Reserve [OF heap_inv_Reclaim [OF inv] R fits1 pos])
  from shape show ?thesis
  proof (elim conjE disjE exE)
    assume "m_totalCapacity h' = m_totalCapacity h1" "m_chunks h' = m_chunks h1"
    with inv1 show ?thesis by (simp add: heap_inv_def)
  next
    fix i off d n
    assume t: "m_totalCapacity h' = m_totalCapacity h1" and res: "res = Inr (i, off)"
      and c: "m_chunks h' =
               push_allocation i
                 \<lparr> sizeInBytes = sz, offsetInChunk = off, doneEvent = d, locked = False, node = n \<rparr>
                 (m_chunks h1)"
    from Reserve_Inr [OF R [unfolded res]]
    have i: "i < length (m_chunks h1)"
      and f: "FindOffsetForAllocation K (m_chunks h1 ! i) sz = Some off" by simp_all
    have "pool_inv K (m_chunks h') (m_totalCapacity h1)"
      unfolding c
      by (rule pool_inv_push [OF inv1 [unfolded heap_inv_def] al i f sz]) simp_all
    then show ?thesis by (simp add: heap_inv_def t)
  qed
qed

lemma heap_inv_Trim:
  assumes "heap_inv K h"
  shows "heap_inv K (Trim env h)"
proof -
  have "pool_inv K (m_chunks (ReclaimAllocations env h)) (m_totalCapacity (ReclaimAllocations env h))"
    using heap_inv_Reclaim [OF assms] by (simp add: heap_inv_def)
  then show ?thesis
    unfolding Trim_def Let_def heap_inv_def by (simp add: pool_inv_filter)
qed

lemma evict_front_shape:
  assumes "evict_front key h = Inr h1"
  shows "m_totalCapacity h1 = m_totalCapacity h \<and>
         (\<exists>p. m_chunks h1 = update_allocation p (\<lambda>a. a\<lparr>locked := False\<rparr>) (m_chunks h))"
  using assms unfolding evict_front_def
  by (auto split: list.splits option.splits; blast)

lemma heap_inv_evict:
  assumes "heap_inv K h" and "evict_front key h = Inr h1"
  shows "heap_inv K h1"
proof -
  from evict_front_shape [OF assms(2)] obtain p where
    t: "m_totalCapacity h1 = m_totalCapacity h"
    and c: "m_chunks h1 = update_allocation p (\<lambda>a. a\<lparr>locked := False\<rparr>) (m_chunks h)"
    by blast
  have "pool_inv K (update_allocation p (\<lambda>a. a\<lparr>locked := False\<rparr>) (m_chunks h)) (m_totalCapacity h)"
    by (rule pool_inv_update_allocation [OF assms(1) [unfolded heap_inv_def]]) simp_all
  then show ?thesis by (simp add: heap_inv_def t c)
qed

lemma reusable_hit_shape:
  assumes "reusable_hit env iter sz h = (r, h')"
  shows "m_totalCapacity h' = m_totalCapacity h \<and>
         (m_chunks h' = m_chunks h \<or>
          (\<exists>p d. m_chunks h' = update_allocation p (\<lambda>a. a\<lparr>doneEvent := d\<rparr>) (m_chunks h)))"
  using assms unfolding reusable_hit_def Let_def
  by (auto split: option.splits if_splits; blast)

lemma heap_inv_hit:
  assumes "heap_inv K h" and "reusable_hit env iter sz h = (r, h')"
  shows "heap_inv K h'"
proof -
  have "pool_inv K (update_allocation p (\<lambda>a. a\<lparr>doneEvent := d\<rparr>) (m_chunks h)) (m_totalCapacity h)"
    for p d
    by (rule pool_inv_update_allocation [OF assms(1) [unfolded heap_inv_def]]) simp_all
  with reusable_hit_shape [OF assms(2)] assms(1) show ?thesis
    by (auto simp: heap_inv_def)
qed

lemma reusable_miss_shape:
  assumes "reusable_miss K env key sz h = (r, h')"
    and "Reserve K env sz h = (res, h1)"
  shows "m_totalCapacity h' = m_totalCapacity h1 \<and>
         (m_chunks h' = m_chunks h1 \<or>
          (\<exists>i off d n. res = Inr (i, off) \<and>
             m_chunks h' =
               push_allocation i
                 \<lparr> sizeInBytes = sz, offsetInChunk = off, doneEvent = d, locked = True, node = n \<rparr>
                 (m_chunks h1)))"
  using assms unfolding reusable_miss_def Let_def
  by (auto split: sum.splits prod.splits if_splits; blast)

lemma heap_inv_miss:
  assumes inv: "heap_inv K h"
    and al: "c_allocationAlignment K = 2 ^ k" "k < 64"
    and sz: "sz \<noteq> 0"
    and run: "reusable_miss K env key sz h = (r, h')"
    and fits: "pool_fits K h'"
  shows "heap_inv K h'"
proof -
  obtain res h1 where R: "Reserve K env sz h = (res, h1)"
    by force
  note shape = reusable_miss_shape [OF run R]
  have "pool_bytes (m_chunks h') = pool_bytes (m_chunks h1)"
    using shape by auto
  then have fits1: "pool_fits K h1"
    using fits by (simp add: pool_fits_def)
  have pos: "0 < unat (c_allocationAlignment K)"
    by (simp add: al unat_pow2)
  have inv1: "heap_inv K h1"
    by (rule heap_inv_Reserve [OF inv R fits1 pos])
  from shape show ?thesis
  proof (elim conjE disjE exE)
    assume "m_totalCapacity h' = m_totalCapacity h1" "m_chunks h' = m_chunks h1"
    with inv1 show ?thesis by (simp add: heap_inv_def)
  next
    fix i off d n
    assume t: "m_totalCapacity h' = m_totalCapacity h1" and res: "res = Inr (i, off)"
      and c: "m_chunks h' =
               push_allocation i
                 \<lparr> sizeInBytes = sz, offsetInChunk = off, doneEvent = d, locked = True, node = n \<rparr>
                 (m_chunks h1)"
    from Reserve_Inr [OF R [unfolded res]]
    have i: "i < length (m_chunks h1)"
      and f: "FindOffsetForAllocation K (m_chunks h1 ! i) sz = Some off" by simp_all
    have "pool_inv K (m_chunks h') (m_totalCapacity h1)"
      unfolding c
      by (rule pool_inv_push [OF inv1 [unfolded heap_inv_def] al i f sz]) simp_all
    then show ?thesis by (simp add: heap_inv_def t)
  qed
qed

lemma heap_inv_BeginReusable:
  assumes inv: "heap_inv K h"
    and al: "c_allocationAlignment K = 2 ^ k" "k < 64"
    and sz: "sz \<noteq> 0"
    and run: "BeginReusableUploadToGpu K env dst dstOff dstState sz h = (r, h')"
    and fits: "pool_fits K h'"
  shows "heap_inv K h'"
  using run refl
proof (cases rule: BeginReusable_cases)
  case (undefined e)
  with inv show ?thesis by simp
next
  case (evict h1)
  have "heap_inv K (ReclaimAllocations env h1)"
    by (rule heap_inv_Reclaim [OF heap_inv_evict [OF inv evict(3)]])
  from heap_inv_miss [OF this al sz evict(4) fits] show ?thesis .
next
  case miss
  from heap_inv_miss [OF heap_inv_Reclaim [OF inv] al sz miss(3) fits] show ?thesis .
next
  case (hit iter)
  from heap_inv_hit [OF heap_inv_Reclaim [OF inv] hit(2)] show ?thesis .
qed

lemma heap_inv_new: "heap_inv K new_heap"
proof -
  have "unat (c_allocationAlignment K) < 2 ^ 64"
    using unsigned_less [of "c_allocationAlignment K", where 'a = nat] by simp
  then show ?thesis
    by (simp add: heap_inv_def pool_inv_def new_heap_def)
qed

lemma heap_inv_disjoint:
  assumes "heap_inv K h" and "c \<in> set (m_chunks h)"
  shows "distinct (allocations c) \<and>
         (\<forall>a \<in> set (allocations c). \<forall>b \<in> set (allocations c).
            a = b \<or> alloc_end a \<le> unat (offsetInChunk b) \<or> alloc_end b \<le> unat (offsetInChunk a))"
proof -
  have c: "chunk_inv K c" using assms by (simp add: heap_inv_def pool_inv_def)
  then obtain A B where xs: "allocations c = A @ B" and s: "sorted_wrt before (B @ A)"
    by (auto simp: chunk_inv_def ring_ordered_iff)
  have set: "set (B @ A) = set (allocations c)" by (auto simp: xs)
  have "\<forall>a \<in> set (B @ A). 0 < unat (sizeInBytes a)"
    using c unfolding set by (simp add: chunk_inv_def unat_gt_0)
  then have "distinct (B @ A)" by (rule chain_distinct [OF s])
  then have "distinct (allocations c)" by (auto simp: xs)
  moreover have "\<forall>a \<in> set (allocations c). \<forall>b \<in> set (allocations c).
      a = b \<or> before a b \<or> before b a"
    using chain_comparable [OF s] set by blast
  ultimately show ?thesis by (simp add: before_def)
qed

text \<open>
  Claim C2. The five invariants of the upload heap hold after every public operation. The
  heap after construction satisfies \<open>heap_inv\<close>; a heap that satisfies it passes every
  assertion of \<open>AssertInvariants\<close> (chunks ascending by capacity, each capacity equal to the
  width of the chunk's resource, every allocation inside its chunk and aligned, no overlap
  between neighbours in offset order, \<open>m_totalCapacity\<close> equal to the sum of the capacities)
  and its allocations are pairwise disjoint byte ranges; and \<open>BeginUploadToGpu\<close>,
  \<open>BeginReusableUploadToGpu\<close> and \<open>Trim\<close> lead from such a heap to such a heap, whether they
  return or fail. This holds for an alignment that is a power of two, requests that are
  not empty, a pool that stays below \<open>2^64\<close> bytes minus the alignment, and calls that do
  not run into undefined behaviour.
\<close>
theorem upload_heap_invariants:
  assumes "c_allocationAlignment K = 2 ^ k" and "k < 64"
  shows "heap_inv K new_heap \<and>
    (\<forall>h. heap_inv K h \<longrightarrow>
       AssertInvariants K h \<and>
       (\<forall>c \<in> set (m_chunks h).
          distinct (allocations c) \<and>
          (\<forall>a \<in> set (allocations c). \<forall>b \<in> set (allocations c).
             a = b \<or> alloc_end a \<le> unat (offsetInChunk b) \<or>
             alloc_end b \<le> unat (offsetInChunk a))) \<and>
       (\<forall>env dst dstOff dstState sz r h'.
          sz \<noteq> 0 \<longrightarrow>
          BeginUploadToGpu K env dst dstOff dstState sz h = (r, h') \<longrightarrow>
          pool_fits K h' \<longrightarrow> heap_inv K h') \<and>
       (\<forall>env dst dstOff dstState sz r h'.
          sz \<noteq> 0 \<longrightarrow>
          BeginReusableUploadToGpu K env dst dstOff dstState sz h = (r, h') \<longrightarrow>
          r \<noteq> Inl UndefinedBehaviour \<longrightarrow>
          pool_fits K h' \<longrightarrow> heap_inv K h') \<and>
       (\<forall>env. heap_inv K (Trim env h)))"
proof (intro conjI allI impI ballI)
  show "heap_inv K new_heap" by (rule heap_inv_new)
next
  fix h assume "heap_inv K h"
  then show "AssertInvariants K h" by (rule heap_inv_AssertInvariants)
next
  fix h c assume "heap_inv K h" "c \<in> set (m_chunks h)"
  then show "distinct (allocations c)" using heap_inv_disjoint by blast
next
  fix h c a b
  assume "heap_inv K h" "c \<in> set (m_chunks h)" "a \<in> set (allocations c)" "b \<in> set (allocations c)"
  then show "a = b \<or> alloc_end a \<le> unat (offsetInChunk b) \<or>
             alloc_end b \<le> unat (offsetInChunk a)"
    using heap_inv_disjoint by blast
next
  fix h env dst dstOff dstState sz r h'
  assume "heap_inv K h" "sz \<noteq> 0" "BeginUploadToGpu K env dst dstOff dstState sz h = (r, h')"
    "pool_fits K h'"
  then show "heap_inv K h'"
    using heap_inv_BeginUpload [OF _ assms] by blast
next
  fix h env dst dstOff dstState sz r h'
  assume "heap_inv K h" "sz \<noteq> 0"
    "BeginReusableUploadToGpu K env dst dstOff dstState sz h = (r, h')" "pool_fits K h'"
  then show "heap_inv K h'"
    using heap_inv_BeginReusable [OF _ assms] by blast
next
  fix h env assume "heap_inv K h"
  then show "heap_inv K (Trim env h)" by (rule heap_inv_Trim)
qed

theorem upload_heap_invariants_witness:
  "(let h1 = snd (BeginUploadToGpu K16 (all_ok 0) 7 0 0 300 new_heap);
        h2 = snd (BeginReusableUploadToGpu K16 (all_ok 0) 7 0 0 64 h1);
        h3 = Trim (all_ok 1) h2
    in c_allocationAlignment K16 = 2 ^ 4 \<and> (4::nat) < 64 \<and>
       fst (BeginReusableUploadToGpu K16 (all_ok 0) 7 0 0 64 h1) \<noteq> Inl UndefinedBehaviour \<and>
       pool_fits K16 h1 \<and> pool_fits K16 h2 \<and>
       map allocations (m_chunks h3) \<noteq> [[]] \<and>
       heap_inv K16 h1 \<and> heap_inv K16 h2 \<and> heap_inv K16 h3 \<and>
       AssertInvariants K16 h1 \<and> AssertInvariants K16 h2 \<and> AssertInvariants K16 h3)"
proof -
  define h1 where "h1 = snd (BeginUploadToGpu K16 (all_ok 0) 7 0 0 300 new_heap)"
  define r2 where "r2 = fst (BeginReusableUploadToGpu K16 (all_ok 0) 7 0 0 64 h1)"
  define h2 where "h2 = snd (BeginReusableUploadToGpu K16 (all_ok 0) 7 0 0 64 h1)"
  define h3 where "h3 = Trim (all_ok 1) h2"
  have a: "c_allocationAlignment K16 = 2 ^ 4" by (simp add: K16_def)
  have b: "(4::nat) < 64" by simp
  note T = upload_heap_invariants [OF a b]
  note step = T [THEN conjunct2, rule_format]
  have f1: "pool_fits K16 h1"
    by (simp add: h1_def pool_fits_def pool_bytes_def heap_defs example_defs)
  have f2: "pool_fits K16 h2" and u2: "r2 \<noteq> Inl UndefinedBehaviour"
    and n3: "map allocations (m_chunks h3) \<noteq> [[]]"
    by (simp_all add: h3_def h2_def r2_def h1_def pool_fits_def pool_bytes_def heap_defs example_defs)
  have i0: "heap_inv K16 new_heap" by (rule T [THEN conjunct1])
  have e1: "BeginUploadToGpu K16 (all_ok 0) 7 0 0 300 new_heap =
      (fst (BeginUploadToGpu K16 (all_ok 0) 7 0 0 300 new_heap), h1)"
    by (simp add: h1_def)
  have i1: "heap_inv K16 h1"
    by (rule step [OF i0, THEN conjunct2, THEN conjunct2, THEN conjunct1, rule_format, OF _ e1 f1]) simp
  have e2: "BeginReusableUploadToGpu K16 (all_ok 0) 7 0 0 64 h1 = (r2, h2)"
    by (simp add: r2_def h2_def)
  have i2: "heap_inv K16 h2"
    by (rule step [OF i1, THEN conjunct2, THEN conjunct2, THEN conjunct2, THEN conjunct1,
          rule_format, OF _ e2 u2 f2]) simp
  have i3: "heap_inv K16 h3"
    unfolding h3_def
    by (rule step [OF i2, THEN conjunct2, THEN conjunct2, THEN conjunct2, THEN conjunct2, rule_format])
  have "AssertInvariants K16 h1" "AssertInvariants K16 h2" "AssertInvariants K16 h3"
    using step [OF i1] step [OF i2] step [OF i3] by blast+
  then show ?thesis
    unfolding Let_def h1_def [symmetric] h2_def [symmetric] h3_def [symmetric] r2_def [symmetric]
    using a b f1 f2 u2 n3 i1 i2 i3 by blast
qed

section \<open>The pooled upload heap: the list of cached command lists\<close>

lemma Reserve_lists [simp]:
  "m_reusableCommandLists (snd (Reserve K env sz h)) = m_reusableCommandLists h"
  by (simp add: Reserve_def CreateChunk_def Let_def split: option.splits)

lemma Reclaim_lists [simp]:
  "m_reusableCommandLists (ReclaimAllocations env h) = m_reusableCommandLists h"
  by (simp add: ReclaimAllocations_def)

lemma BeginUpload_lists:
  "m_reusableCommandLists (snd (BeginUploadToGpu K env dst dstOff dstState sz h)) =
   m_reusableCommandLists h"
proof -
  obtain res h1 where R: "Reserve K env sz (ReclaimAllocations env h) = (res, h1)" by force
  have "m_reusableCommandLists h1 = m_reusableCommandLists h"
    using Reserve_lists [of K env sz "ReclaimAllocations env h"] R by simp
  then show ?thesis
    unfolding BeginUploadToGpu_def Let_def R
    by (auto split: sum.splits prod.splits)
qed

lemma Trim_lists: "m_reusableCommandLists (Trim env h) = m_reusableCommandLists h"
  by (simp add: Trim_def Let_def)

lemma reusable_miss_lists:
  assumes "reusable_miss K env key sz h = (r, h')"
  shows "m_reusableCommandLists h' = m_reusableCommandLists h \<or>
         (\<exists>e. m_reusableCommandLists h' = m_reusableCommandLists h @ [e])"
proof -
  obtain res h1 where R: "Reserve K env sz h = (res, h1)" by force
  have "m_reusableCommandLists h1 = m_reusableCommandLists h"
    using Reserve_lists [of K env sz h] R by simp
  then show ?thesis
    using assms unfolding reusable_miss_def Let_def R
    by (auto split: sum.splits prod.splits if_splits)
qed

lemma evict_front_lists:
  assumes "evict_front key h = Inr h1"
  shows "m_reusableCommandLists h \<noteq> [] \<and> m_reusableCommandLists h1 = tl (m_reusableCommandLists h)"
  using assms unfolding evict_front_def
  by (auto split: list.splits option.splits)

lemma BeginReusable_lists:
  assumes run: "BeginReusableUploadToGpu K env dst dstOff dstState sz h = (r, h')"
  shows "m_reusableCommandLists h' = m_reusableCommandLists h \<or>
         (length (m_reusableCommandLists h) \<noteq> maxReusableCommandLists K \<and>
          (\<exists>e. m_reusableCommandLists h' = m_reusableCommandLists h @ [e])) \<or>
         (length (m_reusableCommandLists h) = maxReusableCommandLists K \<and>
          m_reusableCommandLists h \<noteq> [] \<and>
          (m_reusableCommandLists h' = tl (m_reusableCommandLists h) \<or>
           (\<exists>e. m_reusableCommandLists h' = tl (m_reusableCommandLists h) @ [e])))"
  using run refl
proof (cases rule: BeginReusable_cases)
  case (undefined e)
  then show ?thesis by simp
next
  case (evict h1)
  from evict_front_lists [OF evict(3)] reusable_miss_lists [OF evict(4)] evict(2)
  show ?thesis by auto
next
  case miss
  from reusable_miss_lists [OF miss(3)] miss(2) show ?thesis by auto
next
  case (hit iter)
  have "m_reusableCommandLists h' = m_reusableCommandLists (ReclaimAllocations env h)"
    using reusable_hit_keeps_order [of env iter sz "ReclaimAllocations env h"] hit(2) by simp
  then show ?thesis by simp
qed

text \<open>
  Claim C6. Between public operations \<open>m_reusableCommandLists\<close> has at most
  \<open>maxReusableCommandLists\<close> entries: the new heap has none, and a heap within the bound
  stays within it under \<open>BeginReusableUploadToGpu\<close>, while \<open>BeginUploadToGpu\<close> and \<open>Trim\<close>
  leave the list as it is. A reusable upload leaves the list unchanged, or appends one
  entry to a list that is not full, or pops the front of a full list and then appends at
  most one entry.
\<close>
theorem reusable_command_lists_bounded:
  "length (m_reusableCommandLists new_heap) \<le> maxReusableCommandLists K \<and>
   (\<forall>h. length (m_reusableCommandLists h) \<le> maxReusableCommandLists K \<longrightarrow>
      (\<forall>env dst dstOff dstState sz.
         length (m_reusableCommandLists
                   (snd (BeginReusableUploadToGpu K env dst dstOff dstState sz h)))
           \<le> maxReusableCommandLists K \<and>
         m_reusableCommandLists (snd (BeginUploadToGpu K env dst dstOff dstState sz h)) =
           m_reusableCommandLists h \<and>
         m_reusableCommandLists (Trim env h) = m_reusableCommandLists h)) \<and>
   (\<forall>h env dst dstOff dstState sz.
      let before_call = m_reusableCommandLists h;
          after_call =
            m_reusableCommandLists (snd (BeginReusableUploadToGpu K env dst dstOff dstState sz h))
      in after_call = before_call \<or>
         (length before_call \<noteq> maxReusableCommandLists K \<and>
          (\<exists>e. after_call = before_call @ [e])) \<or>
         (length before_call = maxReusableCommandLists K \<and> before_call \<noteq> [] \<and>
          (after_call = tl before_call \<or> (\<exists>e. after_call = tl before_call @ [e]))))"
proof (intro conjI allI impI)
  show "length (m_reusableCommandLists new_heap) \<le> maxReusableCommandLists K"
    by (simp add: new_heap_def)
next
  fix h :: PooledUploadHeap and env dst dstOff dstState sz
  assume le: "length (m_reusableCommandLists h) \<le> maxReusableCommandLists K"
  obtain r h' where run: "BeginReusableUploadToGpu K env dst dstOff dstState sz h = (r, h')"
    by force
  have pos: "0 < length (m_reusableCommandLists h)" if "m_reusableCommandLists h \<noteq> []"
    using that by simp
  from BeginReusable_lists [OF run]
  have "length (m_reusableCommandLists h') \<le> maxReusableCommandLists K"
  proof (elim disjE conjE exE)
    assume "m_reusableCommandLists h' = m_reusableCommandLists h"
    with le show ?thesis by simp
  next
    fix e assume "length (m_reusableCommandLists h) \<noteq> maxReusableCommandLists K"
      "m_reusableCommandLists h' = m_reusableCommandLists h @ [e]"
    with le show ?thesis by simp
  next
    assume "m_reusableCommandLists h' = tl (m_reusableCommandLists h)"
    with le show ?thesis by simp
  next
    fix e assume "length (m_reusableCommandLists h) = maxReusableCommandLists K"
      "m_reusableCommandLists h \<noteq> []"
      "m_reusableCommandLists h' = tl (m_reusableCommandLists h) @ [e]"
    with pos show ?thesis by simp
  qed
  then show "length (m_reusableCommandLists
                   (snd (BeginReusableUploadToGpu K env dst dstOff dstState sz h)))
           \<le> maxReusableCommandLists K"
    by (simp add: run)
next
  fix h :: PooledUploadHeap and env dst dstOff dstState sz
  show "m_reusableCommandLists (snd (BeginUploadToGpu K env dst dstOff dstState sz h)) =
           m_reusableCommandLists h"
    by (rule BeginUpload_lists)
next
  fix h :: PooledUploadHeap and env
  show "m_reusableCommandLists (Trim env h) = m_reusableCommandLists h"
    by (rule Trim_lists)
next
  fix h :: PooledUploadHeap and env dst dstOff dstState sz
  obtain r h' where run: "BeginReusableUploadToGpu K env dst dstOff dstState sz h = (r, h')"
    by force
  from BeginReusable_lists [OF run]
  show "let before_call = m_reusableCommandLists h;
          after_call =
            m_reusableCommandLists (snd (BeginReusableUploadToGpu K env dst dstOff dstState sz h))
      in after_call = before_call \<or>
         (length before_call \<noteq> maxReusableCommandLists K \<and>
          (\<exists>e. after_call = before_call @ [e])) \<or>
         (length before_call = maxReusableCommandLists K \<and> before_call \<noteq> [] \<and>
          (after_call = tl before_call \<or> (\<exists>e. after_call = tl before_call @ [e])))"
    by (simp add: run Let_def)
qed

theorem reusable_command_lists_bounded_witness:
  "(let h2 = snd (BeginReusableUploadToGpu K16 (all_ok 0) 8 0 0 64
                   (snd (BeginReusableUploadToGpu K16 (all_ok 0) 7 0 0 64 new_heap)))
    in length (m_reusableCommandLists h2) = maxReusableCommandLists K16 \<and>
       length (m_reusableCommandLists
                 (snd (BeginReusableUploadToGpu K16 (all_ok 0) 9 0 0 64 h2)))
         \<le> maxReusableCommandLists K16)"
proof -
  define h2 where "h2 = snd (BeginReusableUploadToGpu K16 (all_ok 0) 8 0 0 64
                   (snd (BeginReusableUploadToGpu K16 (all_ok 0) 7 0 0 64 new_heap)))"
  have full: "length (m_reusableCommandLists h2) = maxReusableCommandLists K16"
    by (simp add: h2_def heap_defs example_defs)
  then have le: "length (m_reusableCommandLists h2) \<le> maxReusableCommandLists K16"
    by simp
  note T = reusable_command_lists_bounded [of K16, THEN conjunct2, THEN conjunct1, rule_format, OF le]
  from T [of "all_ok 0" 9 0 0 64] full show ?thesis
    unfolding Let_def h2_def [symmetric] by blast
qed

section \<open>The pooled upload heap: Trim\<close>

lemma Trim_chunks:
  "m_chunks (Trim env h) =
   filter (\<lambda>c. allocations c \<noteq> [])
     (map (\<lambda>c. c\<lparr>allocations := filter (\<lambda>a. \<not> reclaimable env a) (allocations c)\<rparr>) (m_chunks h))"
  by (simp add: Trim_def ReclaimAllocations_def Let_def)

text \<open>
  Claim C7. \<open>Trim\<close> removes from every chunk exactly the allocations that are not locked
  and whose \<open>doneEvent\<close> has fired, and then exactly the chunks that have no allocation
  left. So every chunk that holds a locked allocation is still there after \<open>Trim\<close>, with its
  capacity, its resource and that allocation.
\<close>
theorem Trim_keeps_locked_chunks:
  "m_chunks (Trim env h) =
     filter (\<lambda>c. allocations c \<noteq> [])
       (map (\<lambda>c. c\<lparr>allocations := filter (\<lambda>a. \<not> (\<not> locked a \<and> IsSignaled env (doneEvent a)))
                                      (allocations c)\<rparr>) (m_chunks h)) \<and>
   (\<forall>c \<in> set (m_chunks h). \<forall>a \<in> set (allocations c). locked a \<longrightarrow>
      (\<exists>c' \<in> set (m_chunks (Trim env h)).
         capacityInBytes c' = capacityInBytes c \<and> resource c' = resource c \<and>
         allocations c' = filter (\<lambda>a. locked a \<or> \<not> IsSignaled env (doneEvent a)) (allocations c) \<and>
         a \<in> set (allocations c')))"
proof (intro conjI ballI impI)
  show "m_chunks (Trim env h) =
     filter (\<lambda>c. allocations c \<noteq> [])
       (map (\<lambda>c. c\<lparr>allocations := filter (\<lambda>a. \<not> (\<not> locked a \<and> IsSignaled env (doneEvent a)))
                                      (allocations c)\<rparr>) (m_chunks h))"
    by (simp add: Trim_chunks reclaimable_def)
next
  fix c a assume c: "c \<in> set (m_chunks h)" and a: "a \<in> set (allocations c)" and l: "locked a"
  let ?keep = "\<lambda>a. locked a \<or> \<not> IsSignaled env (doneEvent a)"
  let ?c' = "c\<lparr>allocations := filter ?keep (allocations c)\<rparr>"
  have in': "a \<in> set (allocations ?c')" using a l by simp
  then have "allocations ?c' \<noteq> []" by (metis empty_iff empty_set)
  moreover have "?c' \<in> set (map (\<lambda>c. c\<lparr>allocations := filter (\<lambda>a. \<not> reclaimable env a) (allocations c)\<rparr>) (m_chunks h))"
    using c by (auto simp: reclaimable_def intro!: image_eqI [where x = c])
  ultimately have "?c' \<in> set (m_chunks (Trim env h))"
    by (simp add: Trim_chunks)
  moreover have "capacityInBytes ?c' = capacityInBytes c \<and> resource ?c' = resource c \<and>
      allocations ?c' = filter ?keep (allocations c)" by simp
  ultimately show "\<exists>c' \<in> set (m_chunks (Trim env h)).
         capacityInBytes c' = capacityInBytes c \<and> resource c' = resource c \<and>
         allocations c' = filter ?keep (allocations c) \<and> a \<in> set (allocations c')"
    using in' by blast
qed

theorem Trim_keeps_locked_chunks_witness:
  "(let h = snd (BeginUploadToGpu K16 (all_ok 0) 9 0 0 300
                  (snd (BeginReusableUploadToGpu K16 (all_ok 0) 7 0 0 64 new_heap)));
        c = hd (m_chunks h);
        a = hd (allocations c)
    in c \<in> set (m_chunks h) \<and> a \<in> set (allocations c) \<and> locked a \<and>
       map locked (allocations c) = [True, False] \<and>
       (\<exists>c' \<in> set (m_chunks (Trim (all_ok 5) h)).
          capacityInBytes c' = capacityInBytes c \<and> resource c' = resource c \<and>
          allocations c' =
            filter (\<lambda>a. locked a \<or> \<not> IsSignaled (all_ok 5) (doneEvent a)) (allocations c) \<and>
          a \<in> set (allocations c')))"
proof -
  define h where "h = snd (BeginUploadToGpu K16 (all_ok 0) 9 0 0 300
                  (snd (BeginReusableUploadToGpu K16 (all_ok 0) 7 0 0 64 new_heap)))"
  define c where "c = hd (m_chunks h)"
  define a where "a = hd (allocations c)"
  have c: "c \<in> set (m_chunks h)" and a: "a \<in> set (allocations c)" and l: "locked a"
    and m: "map locked (allocations c) = [True, False]"
    by (simp_all add: a_def c_def h_def heap_defs example_defs)
  from Trim_keeps_locked_chunks [of "all_ok 5" h, THEN conjunct2, rule_format, OF c a l] c a l m
  show ?thesis
    unfolding Let_def h_def [symmetric] c_def [symmetric] a_def [symmetric] by blast
qed

section \<open>The pooled upload heap: the cached path\<close>

lemma all_allocations_upd [simp]:
  "all_allocations (h\<lparr>m_executionContext := x\<rparr>) = all_allocations h"
  "all_allocations (h\<lparr>stagingWrites := w\<rparr>) = all_allocations h"
  "all_allocations (h\<lparr>nextHandle := n\<rparr>) = all_allocations h"
  "all_allocations (h\<lparr>nextNode := n\<rparr>) = all_allocations h"
  "all_allocations (h\<lparr>m_reusableCommandLists := l\<rparr>) = all_allocations h"
  "all_allocations (h\<lparr>m_reusableCommandListsCache := m\<rparr>) = all_allocations h"
  "all_allocations (h\<lparr>m_totalCapacity := t\<rparr>) = all_allocations h"
  by (simp_all add: all_allocations_def)

lemma all_allocations_Reclaim:
  "all_allocations (ReclaimAllocations env h) =
   filter (\<lambda>a. \<not> reclaimable env a) (all_allocations h)"
proof -
  have "concat (map allocations (map (\<lambda>c. c\<lparr>allocations := filter P (allocations c)\<rparr>) cs)) =
        filter P (concat (map allocations cs))" for P cs
    by (induction cs) simp_all
  then show ?thesis
    by (simp add: all_allocations_def ReclaimAllocations_def)
qed

lemma all_allocations_Reserve:
  "all_allocations (snd (Reserve K env sz h)) = all_allocations h"
  unfolding all_allocations_def by (rule Reserve_allocations)

lemma Reserve_fields:
  "nextNode (snd (Reserve K env sz h)) = nextNode h"
  "m_reusableCommandListsCache (snd (Reserve K env sz h)) = m_reusableCommandListsCache h"
  "m_executionContext (snd (Reserve K env sz h)) = m_executionContext h"
  "stagingWrites (snd (Reserve K env sz h)) = stagingWrites h"
  by (simp_all add: Reserve_def CreateChunk_def Let_def split: option.splits)

lemma concat_push_allocation:
  assumes "i < length cs"
  shows "\<exists>xs ys. concat (map allocations cs) = xs @ ys \<and>
                 concat (map allocations (push_allocation i a cs)) = xs @ [a] @ ys"
proof -
  have cs: "cs = take i cs @ cs ! i # drop (Suc i) cs"
    using assms by (rule id_take_nth_drop)
  have "push_allocation i a cs =
        take i cs @ (cs ! i)\<lparr>allocations := allocations (cs ! i) @ [a]\<rparr> # drop (Suc i) cs"
    using assms by (simp add: push_allocation_def upd_conv_take_nth_drop)
  then have "concat (map allocations (push_allocation i a cs)) =
        (concat (map allocations (take i cs)) @ allocations (cs ! i)) @ [a] @
        concat (map allocations (drop (Suc i) cs))"
    by simp
  moreover have "concat (map allocations cs) =
        (concat (map allocations (take i cs)) @ allocations (cs ! i)) @
        concat (map allocations (drop (Suc i) cs))"
    by (subst cs) simp
  ultimately show ?thesis by blast
qed

lemma concat_update_allocation:
  "concat (map allocations (update_allocation p f cs)) =
   map (\<lambda>a. if node a = p then f a else a) (concat (map allocations cs))"
  by (induction cs) (simp_all add: update_allocation_def)

lemma find_unique:
  assumes "x \<in> set xs" and "P x" and "\<forall>y \<in> set xs. y \<noteq> x \<longrightarrow> \<not> P y"
  shows "find P xs = Some x"
  using assms(1,3)
proof (induction xs)
  case Nil
  then show ?case by simp
next
  case (Cons y ys)
  show ?case
  proof (cases "y = x")
    case True
    with assms(2) show ?thesis by simp
  next
    case False
    from Cons.prems(2) False have "\<not> P y" by simp
    moreover from Cons.prems(1) False have "x \<in> set ys" by simp
    moreover from Cons.prems(2) have "\<forall>z \<in> set ys. z \<noteq> x \<longrightarrow> \<not> P z" by simp
    ultimately show ?thesis using Cons.IH by simp
  qed
qed

lemma evict_front_Inr:
  assumes "evict_front key h = Inr h1"
  obtains front rest where "m_reusableCommandLists h = front # rest"
    "h1 = h\<lparr> m_executionContext :=
                 QueueReference (commandAllocator front)
                   (QueueReference (commandList front) (m_executionContext h)),
               m_chunks :=
                 update_allocation (allocation front) (\<lambda>a. a\<lparr>locked := False\<rparr>) (m_chunks h),
               m_reusableCommandLists := rest,
               m_reusableCommandListsCache :=
                 filter (\<lambda>kv. fst kv \<noteq> key) (m_reusableCommandListsCache h) \<rparr>"
proof (cases "m_reusableCommandLists h")
  case Nil
  with assms show ?thesis by (simp add: evict_front_def)
next
  case (Cons front rest)
  show ?thesis
  proof (cases "find_allocation (allocation front) (m_chunks h)")
    case None
    with Cons assms show ?thesis by (simp add: evict_front_def)
  next
    case (Some a)
    with Cons assms have "h1 = h\<lparr> m_executionContext :=
                 QueueReference (commandAllocator front)
                   (QueueReference (commandList front) (m_executionContext h)),
               m_chunks :=
                 update_allocation (allocation front) (\<lambda>a. a\<lparr>locked := False\<rparr>) (m_chunks h),
               m_reusableCommandLists := rest,
               m_reusableCommandListsCache :=
                 filter (\<lambda>kv. fst kv \<noteq> key) (m_reusableCommandListsCache h) \<rparr>"
      by (simp add: evict_front_def)
    with Cons show ?thesis by (rule that)
  qed
qed

lemma evict_front_fields:
  assumes "evict_front key h = Inr h1"
  shows "nextNode h1 = nextNode h \<and> stagingWrites h1 = stagingWrites h \<and>
         executedCommandLists (m_executionContext h1) = executedCommandLists (m_executionContext h) \<and>
         enqueued (m_executionContext h1) = enqueued (m_executionContext h) \<and>
         m_reusableCommandLists h1 = tl (m_reusableCommandLists h) \<and>
         (\<exists>p. all_allocations h1 =
                map (\<lambda>a. if node a = p then a\<lparr>locked := False\<rparr> else a) (all_allocations h))"
proof -
  from assms obtain front rest where l: "m_reusableCommandLists h = front # rest"
    and h1: "h1 = h\<lparr> m_executionContext :=
                 QueueReference (commandAllocator front)
                   (QueueReference (commandList front) (m_executionContext h)),
               m_chunks :=
                 update_allocation (allocation front) (\<lambda>a. a\<lparr>locked := False\<rparr>) (m_chunks h),
               m_reusableCommandLists := rest,
               m_reusableCommandListsCache :=
                 filter (\<lambda>kv. fst kv \<noteq> key) (m_reusableCommandListsCache h) \<rparr>"
    by (rule evict_front_Inr)
  have "all_allocations h1 =
        map (\<lambda>a. if node a = allocation front then a\<lparr>locked := False\<rparr> else a) (all_allocations h)"
    by (simp add: h1 all_allocations_def concat_update_allocation)
  then show ?thesis
    using l by (auto simp: h1 QueueReference_def)
qed

lemma nodes_fresh_Reclaim:
  assumes "nodes_fresh h"
  shows "nodes_fresh (ReclaimAllocations env h)"
  using assms by (simp add: nodes_fresh_def all_allocations_Reclaim) (simp add: ReclaimAllocations_def)

lemma nodes_fresh_evict:
  assumes "nodes_fresh h" and "evict_front key h = Inr h1"
  shows "nodes_fresh h1"
proof -
  from evict_front_fields [OF assms(2)] obtain p where
    n: "nextNode h1 = nextNode h" and l: "m_reusableCommandLists h1 = tl (m_reusableCommandLists h)"
    and a: "all_allocations h1 =
            map (\<lambda>a. if node a = p then a\<lparr>locked := False\<rparr> else a) (all_allocations h)"
    by blast
  have "\<forall>e \<in> set (tl (m_reusableCommandLists h)). entryNode e < nextNode h"
    using assms(1) by (cases "m_reusableCommandLists h") (auto simp: nodes_fresh_def)
  moreover have "\<forall>x \<in> set (all_allocations h1). node x < nextNode h"
    using assms(1) unfolding a by (auto simp: nodes_fresh_def)
  ultimately show ?thesis by (simp add: nodes_fresh_def n l)
qed

lemma reusable_miss_Inr:
  assumes run: "reusable_miss K env key sz h = (Inr e1, h1)"
  obtains i off hR where "Reserve K env sz h = (Inr (i, off), hR)"
    "e1 = Suc (enqueued (m_executionContext hR))"
    "m_chunks h1 =
       push_allocation i
         \<lparr> sizeInBytes = sz, offsetInChunk = off, doneEvent = enqueued (m_executionContext hR),
           locked = True, node = nextNode hR \<rparr> (m_chunks hR)"
    "m_reusableCommandLists h1 =
       m_reusableCommandLists hR @
         [\<lparr> commandAllocator = nextHandle hR, commandList = Suc (nextHandle hR),
            allocation = nextNode hR, chunkResource = resource (m_chunks hR ! i),
            entryNode = Suc (nextNode hR) \<rparr>]"
    "m_reusableCommandListsCache h1 =
       (if map_of (m_reusableCommandListsCache hR) key = None
        then m_reusableCommandListsCache hR @ [(key, Suc (nextNode hR))]
        else m_reusableCommandListsCache hR)"
    "m_executionContext h1 = ExecuteCommandList (Suc (nextHandle hR)) (m_executionContext hR)"
    "stagingWrites h1 = stagingWrites hR @ [(resource (m_chunks hR ! i), off, sz)]"
    "nextNode h1 = Suc (Suc (nextNode hR))"
proof -
  obtain res hR where R: "Reserve K env sz h = (res, hR)" by force
  show ?thesis
  proof (cases res)
    case (Inl e)
    with run R show ?thesis by (simp add: reusable_miss_def)
  next
    case (Inr found)
    obtain i off where found: "found = (i, off)" by force
    have flags: "createCommandAllocatorOk env" "createCommandListOk env" "mapOk env" "executeOk env"
      using run unfolding reusable_miss_def R Inr found Let_def
      by (auto split: if_splits)
    show ?thesis
    proof (rule that [of i off hR])
      show "Reserve K env sz h = (Inr (i, off), hR)" using R Inr found by simp
    qed (use run flags in \<open>auto simp: reusable_miss_def R Inr found Let_def GetCurrentCompletionEvent_def
           ExecuteCommandList_def\<close>)
  qed
qed

lemma filter_new_insert:
  fixes xs ys :: "Allocation list"
  assumes "\<forall>x \<in> set xs \<union> set ys. node x < n" and "node a = n"
  shows "filter (\<lambda>x. n \<le> node x) (xs @ [a] @ ys) = [a]"
proof -
  have "filter (\<lambda>x. n \<le> node x) zs = []" if "\<forall>x \<in> set zs. node x < n" for zs :: "Allocation list"
    using that by (induction zs) auto
  then have "filter (\<lambda>x. n \<le> node x) xs = []" "filter (\<lambda>x. n \<le> node x) ys = []"
    using assms(1) by simp_all
  then show ?thesis using assms(2) by simp
qed

lemma filter_new_after_hit:
  fixes xs ys :: "Allocation list"
  assumes old: "\<forall>x \<in> set xs \<union> set ys. node x < n" and a: "node a = n" "keep a"
    and f: "node (f a) = n"
  shows "filter (\<lambda>x. n \<le> node x)
           (map (\<lambda>x. if node x = n then f x else x) (filter keep (xs @ [a] @ ys))) = [f a]"
proof -
  have "filter (\<lambda>x. n \<le> node x) (map (\<lambda>x. if node x = n then f x else x) (filter keep zs)) = []"
    if "\<forall>x \<in> set zs. node x < n" for zs :: "Allocation list"
    using that by (induction zs) auto
  then show ?thesis using old a f by simp
qed

lemma find_allocation_new:
  fixes xs ys :: "Allocation list"
  assumes old: "\<forall>x \<in> set xs \<union> set ys. node x < n" and a: "node a = n" "keep a"
  shows "find (\<lambda>x. node x = n) (filter keep (xs @ [a] @ ys)) = Some a"
proof (rule find_unique)
  show "a \<in> set (filter keep (xs @ [a] @ ys))" using a by simp
  show "node a = n" by (rule a(1))
  show "\<forall>y \<in> set (filter keep (xs @ [a] @ ys)). y \<noteq> a \<longrightarrow> node y \<noteq> n"
    using old by auto
qed

lemma map_of_snoc_new:
  assumes "map_of xs k = None"
  shows "map_of (xs @ [(k, v)]) k = Some v"
  using assms by (simp add: map_add_def)

lemma Reclaim_fields [simp]:
  "nextNode (ReclaimAllocations env h) = nextNode h"
  "m_reusableCommandListsCache (ReclaimAllocations env h) = m_reusableCommandListsCache h"
  "m_executionContext (ReclaimAllocations env h) = m_executionContext h"
  "stagingWrites (ReclaimAllocations env h) = stagingWrites h"
  "nextHandle (ReclaimAllocations env h) = nextHandle h"
  "length (m_chunks (ReclaimAllocations env h)) = length (m_chunks h)"
  by (simp_all add: ReclaimAllocations_def)

lemma first_call_miss:
  assumes fresh: "nodes_fresh h"
    and key: "key = \<lparr> dstResource = dst, dstOffset = dstOff, srcSizeInBytes = sz \<rparr>"
    and nokey: "map_of (m_reusableCommandListsCache h) key = None"
    and first: "BeginReusableUploadToGpu K env dst dstOff dstState sz h = (Inr e1, h1)"
  obtains h0 where "reusable_miss K env key sz h0 = (Inr e1, h1)"
    "nodes_fresh h0" "nextNode h0 = nextNode h"
    "m_reusableCommandListsCache h0 = m_reusableCommandListsCache h"
    "stagingWrites h0 = stagingWrites h"
    "executedCommandLists (m_executionContext h0) = executedCommandLists (m_executionContext h)"
  using first key
proof (cases rule: BeginReusable_cases)
  case (undefined e)
  then show ?thesis by simp
next
  case (evict hE)
  note f = evict_front_fields [OF evict(3)]
  show ?thesis
  proof (rule that [OF evict(4)])
    show "nodes_fresh (ReclaimAllocations env hE)"
      by (rule nodes_fresh_Reclaim [OF nodes_fresh_evict [OF fresh evict(3)]])
    show "nextNode (ReclaimAllocations env hE) = nextNode h" using f by simp
    show "m_reusableCommandListsCache (ReclaimAllocations env hE) = m_reusableCommandListsCache h"
      using evict_front_keeps_cache [OF nokey evict(3)] by simp
    show "stagingWrites (ReclaimAllocations env hE) = stagingWrites h" using f by simp
    show "executedCommandLists (m_executionContext (ReclaimAllocations env hE)) =
          executedCommandLists (m_executionContext h)" using f by simp
  qed
next
  case miss
  show ?thesis
    by (rule that [OF miss(3)]) (simp_all add: nodes_fresh_Reclaim [OF fresh])
next
  case (hit iter)
  with nokey show ?thesis by simp
qed

text \<open>
  Claim C4. Two consecutive reusable uploads with the same key allocate one staging slot.
  If the key is not cached and the first call returns, then the second call, given that
  mapping the chunk and executing the command list succeed, returns as well, and: the heap
  has got exactly one allocation since before the first call, after the first call and
  still after the second; the second call writes the source to the same resource and offset
  as the first, executes the command list of the first call again, creates no device object
  and no chunk, and sets the \<open>doneEvent\<close> of that allocation to the completion event
  current at the end of the second call, which is later than the event the first call
  returned.
\<close>
theorem cached_upload_allocates_once:
  assumes fresh: "nodes_fresh h"
    and nokey: "map_of (m_reusableCommandListsCache h)
                  \<lparr> dstResource = dst, dstOffset = dstOff, srcSizeInBytes = sz \<rparr> = None"
    and first: "BeginReusableUploadToGpu K env1 dst dstOff dstState sz h = (Inr e1, h1)"
    and ok2: "mapOk env2" "executeOk env2"
  shows "\<exists>a e2 h2 w cl.
       BeginReusableUploadToGpu K env2 dst dstOff dstState sz h1 = (Inr e2, h2) \<and>
       new_allocations h h1 = [a] \<and> sizeInBytes a = sz \<and> locked a \<and>
       new_allocations h h2 = [a\<lparr>doneEvent := e2\<rparr>] \<and>
       e2 = GetCurrentCompletionEvent (m_executionContext h2) \<and> doneEvent a < e1 \<and> e1 < e2 \<and>
       stagingWrites h1 = stagingWrites h @ [w] \<and> stagingWrites h2 = stagingWrites h1 @ [w] \<and>
       snd w = (offsetInChunk a, sz) \<and>
       executedCommandLists (m_executionContext h1) =
         executedCommandLists (m_executionContext h) @ [cl] \<and>
       executedCommandLists (m_executionContext h2) =
         executedCommandLists (m_executionContext h1) @ [cl] \<and>
       nextHandle h2 = nextHandle h1 \<and> length (m_chunks h2) = length (m_chunks h1) \<and>
       m_reusableCommandLists h2 = m_reusableCommandLists h1"
proof -
  define key where "key = \<lparr> dstResource = dst, dstOffset = dstOff, srcSizeInBytes = sz \<rparr>"
  define n where "n = nextNode h"
  from first_call_miss [OF fresh key_def nokey [folded key_def] first]
  obtain h0 where miss0: "reusable_miss K env1 key sz h0 = (Inr e1, h1)"
    and fresh0: "nodes_fresh h0" and n0: "nextNode h0 = n"
    and cache0: "m_reusableCommandListsCache h0 = m_reusableCommandListsCache h"
    and sw0: "stagingWrites h0 = stagingWrites h"
    and ex0: "executedCommandLists (m_executionContext h0) =
              executedCommandLists (m_executionContext h)"
    unfolding n_def by blast
  from reusable_miss_Inr [OF miss0]
  obtain i off hR where R: "Reserve K env1 sz h0 = (Inr (i, off), hR)"
    and e1: "e1 = Suc (enqueued (m_executionContext hR))"
    and chunks1: "m_chunks h1 =
       push_allocation i
         \<lparr> sizeInBytes = sz, offsetInChunk = off, doneEvent = enqueued (m_executionContext hR),
           locked = True, node = nextNode hR \<rparr> (m_chunks hR)"
    and lists1: "m_reusableCommandLists h1 =
       m_reusableCommandLists hR @
         [\<lparr> commandAllocator = nextHandle hR, commandList = Suc (nextHandle hR),
            allocation = nextNode hR, chunkResource = resource (m_chunks hR ! i),
            entryNode = Suc (nextNode hR) \<rparr>]"
    and cache1: "m_reusableCommandListsCache h1 =
       (if map_of (m_reusableCommandListsCache hR) key = None
        then m_reusableCommandListsCache hR @ [(key, Suc (nextNode hR))]
        else m_reusableCommandListsCache hR)"
    and ctx1: "m_executionContext h1 =
       ExecuteCommandList (Suc (nextHandle hR)) (m_executionContext hR)"
    and sw1: "stagingWrites h1 = stagingWrites hR @ [(resource (m_chunks hR ! i), off, sz)]"
    and n1: "nextNode h1 = Suc (Suc (nextNode hR))"
    by blast
  have sR: "snd (Reserve K env1 sz h0) = hR" using R by simp
  have nR: "nextNode hR = n"
    and cacheR: "m_reusableCommandListsCache hR = m_reusableCommandListsCache h"
    and ctxR: "m_executionContext hR = m_executionContext h0"
    and swR: "stagingWrites hR = stagingWrites h"
    and listsR: "m_reusableCommandLists hR = m_reusableCommandLists h0"
    and allR: "all_allocations hR = all_allocations h0"
    using Reserve_fields [of K env1 sz h0] Reserve_lists [of K env1 sz h0]
      all_allocations_Reserve [of K env1 sz h0] n0 cache0 sw0
    unfolding sR by simp_all
  have i: "i < length (m_chunks hR)" using Reserve_Inr [OF R] by simp
  define a where "a = \<lparr> sizeInBytes = sz, offsetInChunk = off,
      doneEvent = enqueued (m_executionContext hR), locked = True, node = n \<rparr>"
  define st where "st = \<lparr> commandAllocator = nextHandle hR, commandList = Suc (nextHandle hR),
      allocation = n, chunkResource = resource (m_chunks hR ! i), entryNode = Suc n \<rparr>"
  define w where "w = (resource (m_chunks hR ! i), off, sz)"
  from concat_push_allocation [OF i, of a]
  obtain xs ys where split: "all_allocations hR = xs @ ys"
    and all1: "all_allocations h1 = xs @ [a] @ ys"
    unfolding all_allocations_def chunks1 a_def nR by blast
  have old: "\<forall>x \<in> set xs \<union> set ys. node x < n"
    using fresh0 unfolding nodes_fresh_def allR [symmetric] split n0 by auto
  have na: "node a = n" and la: "locked a" and sa: "sizeInBytes a = sz"
    and oa: "offsetInChunk a = off" and da: "doneEvent a = enqueued (m_executionContext hR)"
    by (simp_all add: a_def)
  have new1: "new_allocations h h1 = [a]"
    unfolding new_allocations_def all1 n_def [symmetric]
    by (rule filter_new_insert [OF old na])
  have nokeyR: "map_of (m_reusableCommandListsCache hR) key = None"
    using nokey [folded key_def] cacheR by simp
  then have "m_reusableCommandListsCache h1 = m_reusableCommandListsCache hR @ [(key, Suc n)]"
    using cache1 nR by simp
  then have key1: "map_of (m_reusableCommandListsCache h1) key = Some (Suc n)"
    by (simp only: map_of_snoc_new [OF nokeyR])
  obtain r2 h2 where second: "BeginReusableUploadToGpu K env2 dst dstOff dstState sz h1 = (r2, h2)"
    by force
  from second key_def
  have hit2: "reusable_hit env2 (Suc n) sz (ReclaimAllocations env2 h1) = (r2, h2)"
    by (cases rule: BeginReusable_cases) (simp_all add: key1)
  let ?h = "ReclaimAllocations env2 h1"
  have lists': "m_reusableCommandLists ?h = m_reusableCommandLists h0 @ [st]"
    by (simp add: lists1 listsR st_def nR)
  have "\<forall>e \<in> set (m_reusableCommandLists h0). entryNode e < n"
    using fresh0 by (simp add: nodes_fresh_def n0)
  then have findE: "find (\<lambda>e. entryNode e = Suc n) (m_reusableCommandLists ?h) = Some st"
    unfolding lists' by (intro find_unique) (auto simp: st_def)
  have keep: "\<not> reclaimable env2 a" using la by (simp add: reclaimable_def)
  have all': "all_allocations ?h = filter (\<lambda>x. \<not> reclaimable env2 x) (xs @ [a] @ ys)"
    by (simp only: all_allocations_Reclaim all1)
  have findA: "find_allocation n (m_chunks ?h) = Some a"
    unfolding find_allocation_def all_allocations_def [symmetric] all'
    by (rule find_allocation_new [where keep = "\<lambda>x. \<not> reclaimable env2 x", OF old na keep])
  have findA': "find_allocation (allocation st) (m_chunks ?h) = Some a"
    using findA by (simp add: st_def)
  define e2 where "e2 = Suc (enqueued (m_executionContext h1))"
  have r2: "r2 = Inr e2"
    and h2: "h2 = ?h\<lparr> stagingWrites := stagingWrites ?h @ [(chunkResource st, offsetInChunk a, sz)],
                      m_executionContext := ExecuteCommandList (commandList st) (m_executionContext ?h),
                      m_chunks := update_allocation (allocation st) (\<lambda>a. a\<lparr>doneEvent := e2\<rparr>)
                                    (m_chunks ?h) \<rparr>"
    using hit2 ok2 unfolding reusable_hit_def findE
    by (simp_all add: findA' Let_def e2_def GetCurrentCompletionEvent_def ExecuteCommandList_def)
  have all2: "all_allocations h2 =
      map (\<lambda>x. if node x = n then x\<lparr>doneEvent := e2\<rparr> else x)
        (filter (\<lambda>x. \<not> reclaimable env2 x) (xs @ [a] @ ys))"
    unfolding h2 by (simp add: all_allocations_def [of "_\<lparr>m_chunks := _\<rparr>"] concat_update_allocation
        all_allocations_def [symmetric] all' st_def)
  have new2: "new_allocations h h2 = [a\<lparr>doneEvent := e2\<rparr>]"
    unfolding new_allocations_def all2 n_def [symmetric]
    by (rule filter_new_after_hit [where keep = "\<lambda>x. \<not> reclaimable env2 x", OF old na keep])
      (simp add: na)
  have "BeginReusableUploadToGpu K env2 dst dstOff dstState sz h1 = (Inr e2, h2)"
    using second r2 by simp
  moreover have "e2 = GetCurrentCompletionEvent (m_executionContext h2)"
    by (simp add: h2 e2_def GetCurrentCompletionEvent_def ExecuteCommandList_def)
  moreover have "doneEvent a < e1" "e1 < e2"
    by (simp_all add: da e1 e2_def ctx1 ExecuteCommandList_def)
  moreover have "stagingWrites h1 = stagingWrites h @ [w]"
    by (simp add: sw1 swR w_def)
  moreover have "stagingWrites h2 = stagingWrites h1 @ [w]"
    by (simp add: h2 w_def st_def oa)
  moreover have "snd w = (offsetInChunk a, sz)" by (simp add: w_def oa)
  moreover have "executedCommandLists (m_executionContext h1) =
      executedCommandLists (m_executionContext h) @ [commandList st]"
    by (simp add: ctx1 ctxR ex0 ExecuteCommandList_def st_def)
  moreover have "executedCommandLists (m_executionContext h2) =
      executedCommandLists (m_executionContext h1) @ [commandList st]"
    by (simp add: h2 ExecuteCommandList_def)
  moreover have "nextHandle h2 = nextHandle h1" "length (m_chunks h2) = length (m_chunks h1)"
    "m_reusableCommandLists h2 = m_reusableCommandLists h1"
    by (simp_all add: h2 update_allocation_def)
  ultimately show ?thesis
    using new1 new2 sa la by blast
qed

theorem cached_upload_allocates_once_witness:
  "(let h1 = snd (BeginReusableUploadToGpu K16 (all_ok 0) 7 0 0 64 new_heap)
    in nodes_fresh new_heap \<and>
       map_of (m_reusableCommandListsCache new_heap)
         \<lparr> dstResource = 7, dstOffset = 0, srcSizeInBytes = 64 \<rparr> = None \<and>
       BeginReusableUploadToGpu K16 (all_ok 0) 7 0 0 64 new_heap = (Inr 1, h1) \<and>
       mapOk (all_ok 0) \<and> executeOk (all_ok 0) \<and>
       (\<exists>a e2 h2 w cl.
       BeginReusableUploadToGpu K16 (all_ok 0) 7 0 0 64 h1 = (Inr e2, h2) \<and>
       new_allocations new_heap h1 = [a] \<and> sizeInBytes a = 64 \<and> locked a \<and>
       new_allocations new_heap h2 = [a\<lparr>doneEvent := e2\<rparr>] \<and>
       e2 = GetCurrentCompletionEvent (m_executionContext h2) \<and> doneEvent a < 1 \<and> 1 < e2 \<and>
       stagingWrites h1 = stagingWrites new_heap @ [w] \<and> stagingWrites h2 = stagingWrites h1 @ [w] \<and>
       snd w = (offsetInChunk a, 64) \<and>
       executedCommandLists (m_executionContext h1) =
         executedCommandLists (m_executionContext new_heap) @ [cl] \<and>
       executedCommandLists (m_executionContext h2) =
         executedCommandLists (m_executionContext h1) @ [cl] \<and>
       nextHandle h2 = nextHandle h1 \<and> length (m_chunks h2) = length (m_chunks h1) \<and>
       m_reusableCommandLists h2 = m_reusableCommandLists h1))"
proof -
  define h1 where "h1 = snd (BeginReusableUploadToGpu K16 (all_ok 0) 7 0 0 64 new_heap)"
  have fresh: "nodes_fresh new_heap"
    by (simp add: nodes_fresh_def all_allocations_def new_heap_def)
  have nokey: "map_of (m_reusableCommandListsCache new_heap)
         \<lparr> dstResource = 7, dstOffset = 0, srcSizeInBytes = 64 \<rparr> = None"
    by (simp add: new_heap_def)
  have "fst (BeginReusableUploadToGpu K16 (all_ok 0) 7 0 0 64 new_heap) = Inr 1"
    by (simp add: heap_defs example_defs)
  then have first: "BeginReusableUploadToGpu K16 (all_ok 0) 7 0 0 64 new_heap = (Inr 1, h1)"
    unfolding h1_def by (metis prod.collapse)
  have ok: "mapOk (all_ok 0)" "executeOk (all_ok 0)"
    by (simp_all add: all_ok_def)
  from cached_upload_allocates_once [OF fresh nokey first ok] fresh nokey first ok
  show ?thesis
    unfolding Let_def h1_def [symmetric] by blast
qed

section \<open>The pooled upload heap: cached command lists\<close>

text \<open>
  Claim C3, evaluated on the code. With room for one cached command list, a first reusable
  upload for key (7, 0, 64) fills the list. A second one for key (8, 0, 64) is a miss on a
  full list: the front entry is popped, its command list 3 and allocator 2 are queued for
  release, its allocation is unlocked (and reclaimed in the same call); but the cache still
  maps key (7, 0, 64) to the popped node 2, because the code erases the key of the request,
  which is not in the cache. A third upload for key (7, 0, 64) then dereferences the
  iterator of the popped node.
\<close>
theorem evicted_key_stays_cached:
  "(let h1 = snd (BeginReusableUploadToGpu K16_one (all_ok 0) 7 0 0 64 new_heap);
        (r2, h2) = BeginReusableUploadToGpu K16_one (all_ok 0) 8 0 0 64 h1
    in length (m_reusableCommandLists h1) = maxReusableCommandLists K16_one \<and>
       map_of (m_reusableCommandListsCache h1)
         \<lparr> dstResource = 8, dstOffset = 0, srcSizeInBytes = 64 \<rparr> = None \<and>
       r2 = Inr 2 \<and>
       map entryNode (m_reusableCommandLists h1) = [2] \<and>
       map entryNode (m_reusableCommandLists h2) = [4] \<and>
       queuedReferences (m_executionContext h2) = [3, 2] \<and>
       map node (concat (map allocations (m_chunks h1))) = [1] \<and>
       map node (concat (map allocations (m_chunks h2))) = [3] \<and>
       map_of (m_reusableCommandListsCache h2)
         \<lparr> dstResource = 7, dstOffset = 0, srcSizeInBytes = 64 \<rparr> = Some 2 \<and>
       fst (BeginReusableUploadToGpu K16_one (all_ok 0) 7 0 0 64 h2) = Inl UndefinedBehaviour)"
  by (simp add: heap_defs example_defs)

text \<open>
  Claim C5, evaluated on the code. With room for two cached command lists, uploads for the
  keys (7, 0, 64) and (8, 0, 64) are followed by a hit on (7, 0, 64), which executes command
  list 3 again and leaves the order of the list as it was. The miss on (9, 0, 64) that
  follows evicts the front entry, command list 3 of the key used last, and keeps command
  list 5 of the key whose last use is older.
\<close>
theorem hit_does_not_refresh_recency:
  "(let h1 = snd (BeginReusableUploadToGpu K16 (all_ok 0) 7 0 0 64 new_heap);
        h2 = snd (BeginReusableUploadToGpu K16 (all_ok 0) 8 0 0 64 h1);
        h3 = snd (BeginReusableUploadToGpu K16 (all_ok 0) 7 0 0 64 h2);
        h4 = snd (BeginReusableUploadToGpu K16 (all_ok 0) 9 0 0 64 h3)
    in map commandList (m_reusableCommandLists h2) = [3, 5] \<and>
       executedCommandLists (m_executionContext h3) = [3, 5, 3] \<and>
       map commandList (m_reusableCommandLists h3) = [3, 5] \<and>
       map commandList (m_reusableCommandLists h4) = [5, 7] \<and>
       queuedReferences (m_executionContext h4) = [3, 2] \<and>
       map locked (concat (map allocations (m_chunks h4))) = [False, True, True])"
  by (simp add: heap_defs example_defs)

text \<open>
  Claim C8, evaluated on the code. On a new heap a reusable upload whose command list fails
  to execute returns the failure, and yet the heap has got an allocation (locked, 64 bytes
  at offset 0): the entry is pushed before \<open>ExecuteCommandList\<close> is called. No cached
  command list refers to it, so nothing will unlock it and \<open>Trim\<close> keeps it.
\<close>
theorem failed_execution_leaves_allocation:
  "(let (r, h) = BeginReusableUploadToGpu K16 (execute_fails 0) 7 0 0 64 new_heap
    in r = Inl ExecutionFailure \<and>
       concat (map allocations (m_chunks new_heap)) = [] \<and>
       concat (map allocations (m_chunks h)) =
         [\<lparr> sizeInBytes = 64, offsetInChunk = 0, doneEvent = 0, locked = True, node = 1 \<rparr>] \<and>
       m_reusableCommandLists h = [] \<and>
       concat (map allocations (m_chunks (Trim (all_ok 100) h))) =
         [\<lparr> sizeInBytes = 64, offsetInChunk = 0, doneEvent = 0, locked = True, node = 1 \<rparr>])"
  by (simp add: heap_defs example_defs)

end
